theory Spec2Isabelle
  imports Complex_Main "HOL-Library.AList" "HOL-Library.Sublist"
begin

section \<open>JavaScript values used by the batch classifier\<close>

text \<open>
  The model's output is read with \<^verbatim>\<open>predictions.data()\<close>, a typed array of floats. Only
  comparisons are made on these values, so a finite float is embedded as the real number it
  denotes; the two infinities and NaN are kept as constructors of their own. \<open>Undefined\<close> is
  what reading an index outside the array gives (\<^verbatim>\<open>probabilities[0]\<close> of an empty array).
\<close>

datatype jsnum = Undefined | NaN | NegInf | Fin real | PosInf

text \<open>
  The relational operators \<^verbatim>\<open>>\<close> and \<^verbatim>\<open>>=\<close> of JavaScript: \<^verbatim>\<open>undefined\<close> is converted
  to NaN, and every comparison with NaN is false.
\<close>

fun js_gt :: "jsnum \<Rightarrow> jsnum \<Rightarrow> bool" where
  "js_gt Undefined _ = False"
| "js_gt _ Undefined = False"
| "js_gt NaN _ = False"
| "js_gt _ NaN = False"
| "js_gt NegInf _ = False"
| "js_gt (Fin a) NegInf = True"
| "js_gt (Fin a) (Fin b) = (b < a)"
| "js_gt (Fin a) PosInf = False"
| "js_gt PosInf PosInf = False"
| "js_gt PosInf _ = True"

fun js_ge :: "jsnum \<Rightarrow> jsnum \<Rightarrow> bool" where
  "js_ge Undefined _ = False"
| "js_ge _ Undefined = False"
| "js_ge NaN _ = False"
| "js_ge _ NaN = False"
| "js_ge NegInf NegInf = True"
| "js_ge NegInf _ = False"
| "js_ge (Fin a) NegInf = True"
| "js_ge (Fin a) (Fin b) = (b \<le> a)"
| "js_ge (Fin a) PosInf = False"
| "js_ge PosInf _ = True"

definition js_lt :: "jsnum \<Rightarrow> jsnum \<Rightarrow> bool" where
  "js_lt a b = js_gt b a"

text \<open>A value that takes part in comparisons: neither NaN nor \<^verbatim>\<open>undefined\<close>.\<close>

fun comparable :: "jsnum \<Rightarrow> bool" where
  "comparable Undefined = False"
| "comparable NaN = False"
| "comparable _ = True"

subsection \<open>Numbers in template literals\<close>

definition digit_char :: "nat \<Rightarrow> char" where
  "digit_char d = char_of (48 + d)"

fun string_of_nat :: "nat \<Rightarrow> string" where
  "string_of_nat n =
     (if n < 10 then [digit_char n] else string_of_nat (n div 10) @ [digit_char (n mod 10)])"

declare string_of_nat.simps [simp del]

definition string_of_int :: "int \<Rightarrow> string" where
  "string_of_int i = (if i < 0 then CHR ''-'' # string_of_nat (nat (- i)) else string_of_nat (nat i))"

subsection \<open>Strings\<close>

text \<open>
  Labels are embedded as lists of 8-bit characters read as Latin-1 code points.
  \<^verbatim>\<open>toLowerCase\<close> moves the upper-case letters of that range 32 places up and leaves
  every other character alone.
\<close>

definition lower_char :: "char \<Rightarrow> char" where
  "lower_char c =
     (let n = (of_char c :: nat)
      in if 65 \<le> n \<and> n \<le> 90 then char_of (n + 32)
         else if 192 \<le> n \<and> n \<le> 222 then (if n = 215 then c else char_of (n + 32))
         else c)"

definition toLowerCase :: "string \<Rightarrow> string" where
  "toLowerCase s = map lower_char s"

section \<open>Classification of one output vector\<close>

text \<open>\<^verbatim>\<open>probabilities[j]\<close>: the element, or \<^verbatim>\<open>undefined\<close> outside the array.\<close>

definition js_index :: "jsnum list \<Rightarrow> nat \<Rightarrow> jsnum" where
  "js_index probabilities j = (if j < length probabilities then probabilities ! j else Undefined)"

text \<open>
  The scan for the class with the highest probability:
  \<^verbatim>\<open>for (let j = 1; j < probabilities.length; j++)
    if (probabilities[j] > maxProbability) { maxProbability = probabilities[j]; maxIndex = j }\<close>
\<close>

function argmax_loop :: "jsnum list \<Rightarrow> nat \<Rightarrow> nat \<times> jsnum \<Rightarrow> nat \<times> jsnum" where
  "argmax_loop probabilities j (maxIndex, maxProbability) =
     (if j < length probabilities
      then (if js_gt (js_index probabilities j) maxProbability
            then argmax_loop probabilities (j + 1) (j, js_index probabilities j)
            else argmax_loop probabilities (j + 1) (maxIndex, maxProbability))
      else (maxIndex, maxProbability))"
  by pat_completeness auto
termination
  by (relation "measure (\<lambda>(probabilities, j, _). length probabilities - j)") auto

definition argmax :: "jsnum list \<Rightarrow> nat \<times> jsnum" where
  "argmax probabilities = argmax_loop probabilities 1 (0, js_index probabilities 0)"

text \<open>
  \<^verbatim>\<open>classNames[maxIndex] || `Class ${maxIndex}`\<close>: the fallback is taken when the left operand
  is falsy, that is when the index is outside the list and also when the label there is the
  empty string.
\<close>

definition label_of :: "string list \<Rightarrow> nat \<Rightarrow> string" where
  "label_of classNames maxIndex =
     (if maxIndex < length classNames \<and> classNames ! maxIndex \<noteq> []
      then classNames ! maxIndex
      else ''Class '' @ string_of_nat maxIndex)"

datatype category = Normal | Theft | Unidentified

text \<open>The confidence threshold and the label test of the batch loop.\<close>

definition route :: "jsnum \<Rightarrow> string \<Rightarrow> category" where
  "route confidence classification =
     (if js_ge confidence (Fin 1)
      then (if toLowerCase classification = ''normal'' then Normal else Theft)
      else Unidentified)"


section \<open>Files, results and the archive\<close>

text \<open>A browser \<^verbatim>\<open>File\<close>: its name, its content type and its bytes.\<close>

record jsfile =
  fname :: string
  ftype :: string
  fbytes :: "nat list"

text \<open>An element of \<^verbatim>\<open>processedImages\<close> and of \<^verbatim>\<open>classifiedImages\<close> (the field \<^verbatim>\<open>file\<close> is written \<open>file'\<close>).\<close>

record classified =
  file' :: jsfile
  classification :: string
  timestamp :: int
  confidence :: jsnum

text \<open>
  The archive object of the JSZip library is its table \<^verbatim>\<open>files\<close> from entry name to
  entry, kept in insertion order. \<^verbatim>\<open>folder(name)\<close> adds the directory entry
  \<^verbatim>\<open>name/\<close> unless it is there and returns a view rooted at it; \<^verbatim>\<open>file(name, data)\<close>
  on such a view assigns \<^verbatim>\<open>files[root + name]\<close>, replacing an entry of the same name.
\<close>

datatype zentry = Folder | FileData jsfile

type_synonym zip = "(string \<times> zentry) list"

definition zip_folder :: "string \<Rightarrow> zip \<Rightarrow> zip \<times> string" where
  "zip_folder name z =
     (let dir = name @ ''/''
      in (case map_of z dir of None \<Rightarrow> z @ [(dir, Folder)] | Some _ \<Rightarrow> z, dir))"

definition zip_file :: "string \<Rightarrow> string \<Rightarrow> jsfile \<Rightarrow> zip \<Rightarrow> zip" where
  "zip_file dir name data z = AList.update (dir @ name) (FileData data) z"

text \<open>\<^verbatim>\<open>`${category}_${Date.now()}_${index}.jpg`\<close>\<close>

definition file_name :: "string \<Rightarrow> int \<Rightarrow> nat \<Rightarrow> string" where
  "file_name cat now index =
     cat @ ''_'' @ string_of_int now @ ''_'' @ string_of_nat index @ ''.jpg''"

section \<open>The component and its collaborators\<close>

text \<open>
  What the run obtains from outside the component:
  \<^item> \<open>image_load\<close>: the browser decoding a file into the 224 by 224 canvas and TensorFlow
    reading and scaling its pixels; \<open>None\<close> when the image element never fires
    \<^verbatim>\<open>onload\<close>, which is what an undecodable file does;
  \<^item> \<open>model_predict\<close>: \<^verbatim>\<open>model.predict\<close> followed by \<^verbatim>\<open>data()\<close>; \<open>None\<close> when either throws;
  \<^item> \<open>date_now k\<close>: the clock as read the \<open>k\<close>-th time during the run;
  \<^item> \<open>toISOString\<close>: the formatting of a clock reading;
  \<^item> \<open>import_jszip\<close>: whether the dynamic import of the archive library succeeds;
  \<^item> \<open>generateAsync\<close>: whether serialising the archive succeeds.
\<close>

record 't env =
  image_load :: "jsfile \<Rightarrow> 't option"
  model_predict :: "'t \<Rightarrow> jsnum list option"
  date_now :: "nat \<Rightarrow> int"
  toISOString :: "int \<Rightarrow> string"
  import_jszip :: bool
  generateAsync :: "zip \<Rightarrow> bool"

datatype alert = AlertNotReady | AlertComplete nat nat nat string | AlertFailed

text \<open>The calls of a run that are visible from outside, in the order they are made.\<close>

datatype event =
    SetBatchProgress nat nat
  | PreprocessImage jsfile
  | Predict jsfile
  | PushCategory category jsfile
  | PushProcessed classified
  | OnImageClassified jsfile string
  | Download string zip
  | Alert alert

text \<open>
  The React state of the component (\<open>model_ready\<close> stands for \<^verbatim>\<open>model\<close> not being null),
  then the local arrays of \<^verbatim>\<open>processBatchImages\<close>, kept in the record so that their values
  at the end of a run can be spoken about, then the number of clock readings made so far and
  the events of the run.
\<close>

record state =
  model_ready :: bool
  classNames :: "string list"
  classifiedImages :: "classified list"
  batchImages :: "jsfile list"
  isBatchProcessing :: bool
  batchProgress :: "nat \<times> nat"
  normalImages :: "jsfile list"
  theftImages :: "jsfile list"
  unidentifiedImages :: "jsfile list"
  processedImages :: "classified list"
  clock_reads :: nat
  trace :: "event list"

text \<open>How an awaited promise ends; \<open>Pending\<close> is a promise that is never settled.\<close>

datatype 'a promise = Resolved 'a | Rejected | Pending

text \<open>How a block of statements ends: normally, by an exception, or never.\<close>

datatype completion = Done (state_of_completion: state) | Thrown (state_of_completion: state) | Hung (state_of_completion: state)

text \<open>
  How \<^verbatim>\<open>processBatchImages\<close> ends: by the early return of its guard, at the end of its
  \<^verbatim>\<open>try\<close> block, through its \<^verbatim>\<open>catch\<close> block, or never; \<open>state_of\<close> is the state it
  leaves.
\<close>

datatype outcome =
    is_NotStarted: NotStarted (state_of: state)
  | is_Completed: Completed (state_of: state)
  | is_Failed: Failed (state_of: state)
  | is_Stalled: Stalled (state_of: state)

section \<open>The batch run\<close>

text \<open>
  \<^verbatim>\<open>preprocessImage\<close> returns a promise whose executor takes \<^verbatim>\<open>resolve\<close> only and sets
  \<^verbatim>\<open>img.onload\<close> only: it is resolved when the image loads and is never rejected.
\<close>

definition preprocessImage :: "'t env \<Rightarrow> jsfile \<Rightarrow> 't promise" where
  "preprocessImage env imageFile =
     (case image_load env imageFile of Some normalized \<Rightarrow> Resolved normalized | None \<Rightarrow> Pending)"

definition emit :: "event \<Rightarrow> state \<Rightarrow> state" where
  "emit e s = s\<lparr>trace := trace s @ [e]\<rparr>"

text \<open>The three \<^verbatim>\<open>push\<close> calls of the categorisation, one per branch.\<close>

fun push_category :: "category \<Rightarrow> jsfile \<Rightarrow> state \<Rightarrow> state" where
  "push_category Normal img s = s\<lparr>normalImages := normalImages s @ [img]\<rparr>"
| "push_category Theft img s = s\<lparr>theftImages := theftImages s @ [img]\<rparr>"
| "push_category Unidentified img s = s\<lparr>unidentifiedImages := unidentifiedImages s @ [img]\<rparr>"

text \<open>
  The body of the loop over \<^verbatim>\<open>batchImages\<close>, for the image at index \<open>i\<close>. The two
  branches of the confidence test are \<open>route\<close> followed by \<open>push_category\<close>. Adding the
  batch dimension and disposing of the tensors are left out: they change nothing that
  the state records.
\<close>

definition classify_image :: "'t env \<Rightarrow> nat \<Rightarrow> jsfile \<Rightarrow> state \<Rightarrow> completion" where
  "classify_image env i img s =
     (let s1 = emit (SetBatchProgress (i + 1) (length (batchImages s)))
                 (s\<lparr>batchProgress := (i + 1, length (batchImages s))\<rparr>);
          s2 = emit (PreprocessImage img) s1
      in case preprocessImage env img of
           Pending \<Rightarrow> Hung s2
         | Rejected \<Rightarrow> Thrown s2
         | Resolved imageTensor \<Rightarrow>
             (let s3 = emit (Predict img) s2
              in case model_predict env imageTensor of
                   None \<Rightarrow> Thrown s3
                 | Some probabilities \<Rightarrow>
                     (let (maxIndex, maxProbability) = argmax probabilities;
                          classification = label_of (classNames s3) maxIndex;
                          confidence = maxProbability;
                          timestamp = date_now env (clock_reads s3);
                          s4 = s3\<lparr>clock_reads := clock_reads s3 + 1\<rparr>;
                          cat = route confidence classification;
                          s5 = emit (PushCategory cat img) (push_category cat img s4);
                          item = \<lparr>file' = img, classification = classification,
                                  timestamp = timestamp, confidence = confidence\<rparr>;
                          s6 = emit (PushProcessed item)
                                 (s5\<lparr>processedImages := processedImages s5 @ [item]\<rparr>)
                      in Done (emit (OnImageClassified img classification) s6))))"

text \<open>
  \<^verbatim>\<open>for (let i = 0; i < batchImages.length; i++)\<close>, as a recursion over the images from
  index \<open>i\<close> on; an exception or a promise that stays pending ends the loop.
\<close>

fun batch_loop :: "'t env \<Rightarrow> nat \<Rightarrow> jsfile list \<Rightarrow> state \<Rightarrow> completion" where
  "batch_loop env i [] s = Done s"
| "batch_loop env i (img # images) s =
     (case classify_image env i img s of
        Done s' \<Rightarrow> batch_loop env (i + 1) images s'
      | Thrown s' \<Rightarrow> Thrown s'
      | Hung s' \<Rightarrow> Hung s')"

text \<open>
  \<^verbatim>\<open>images.forEach((image, index) => folder.file(`${cat}_${Date.now()}_${index}.jpg`, image))\<close>
\<close>

fun add_images :: "'t env \<Rightarrow> string \<Rightarrow> string \<Rightarrow> nat \<Rightarrow> jsfile list \<Rightarrow> zip \<times> nat \<Rightarrow> zip \<times> nat" where
  "add_images env dir cat index [] (z, reads) = (z, reads)"
| "add_images env dir cat index (img # images) (z, reads) =
     add_images env dir cat (index + 1) images
       (zip_file dir (file_name cat (date_now env reads) index) img z, reads + 1)"

text \<open>One of the three blocks \<^verbatim>\<open>if (images.length > 0) { folder = zip.folder(cat); ... }\<close>.\<close>

definition add_folder :: "'t env \<Rightarrow> string \<Rightarrow> jsfile list \<Rightarrow> zip \<times> nat \<Rightarrow> zip \<times> nat" where
  "add_folder env cat images zr =
     (if length images > 0
      then (let (z', dir) = zip_folder cat (fst zr)
            in add_images env dir cat 0 images (z', snd zr))
      else zr)"

definition build_zip :: "'t env \<Rightarrow> state \<Rightarrow> zip \<times> nat" where
  "build_zip env s =
     add_folder env ''unidentified'' (unidentifiedImages s)
       (add_folder env ''theft'' (theftImages s)
          (add_folder env ''normal'' (normalImages s) ([], clock_reads s)))"

text \<open>
  \<^verbatim>\<open>`filtered_${new Date().toISOString().slice(0, 19).replace(/:/g, '-')}`\<close>
\<close>

definition folderName :: "'t env \<Rightarrow> state \<Rightarrow> string" where
  "folderName env s =
     ''filtered_'' @
     map (\<lambda>c. if c = CHR '':'' then CHR ''-'' else c)
       (take 19 (toISOString env (date_now env (clock_reads s))))"

text \<open>The statements of the \<^verbatim>\<open>try\<close> block after the loop.\<close>

definition archive_and_record :: "'t env \<Rightarrow> state \<Rightarrow> completion" where
  "archive_and_record env s =
     (let name = folderName env s;
          s1 = s\<lparr>clock_reads := clock_reads s + 1\<rparr>
      in if import_jszip env
         then (let (z, reads) = build_zip env s1;
                   s2 = s1\<lparr>clock_reads := reads\<rparr>
               in if generateAsync env z
                  then (let s3 = emit (Download (name @ ''.zip'') z) s2;
                            s4 = s3\<lparr>classifiedImages := classifiedImages s3 @ processedImages s3\<rparr>;
                            s5 = s4\<lparr>batchImages := []\<rparr>
                        in Done (emit (Alert (AlertComplete (length (normalImages s5))
                                   (length (theftImages s5)) (length (unidentifiedImages s5))
                                   (name @ ''.zip''))) s5))
                  else Thrown s2)
         else Thrown s1)"

definition try_block :: "'t env \<Rightarrow> state \<Rightarrow> completion" where
  "try_block env s =
     (case batch_loop env 0 (batchImages s) s of
        Done s' \<Rightarrow> archive_and_record env s'
      | Thrown s' \<Rightarrow> Thrown s'
      | Hung s' \<Rightarrow> Hung s')"

text \<open>The statements before the \<^verbatim>\<open>try\<close>; the trace and the count of clock readings start anew.\<close>

definition start :: "state \<Rightarrow> state" where
  "start s =
     s\<lparr>isBatchProcessing := True,
       batchProgress := (0, length (batchImages s)),
       normalImages := [], theftImages := [], unidentifiedImages := [],
       processedImages := [],
       clock_reads := 0,
       trace := [SetBatchProgress 0 (length (batchImages s))]\<rparr>"

text \<open>The \<^verbatim>\<open>finally\<close> block.\<close>

definition cleanup :: "state \<Rightarrow> state" where
  "cleanup s = emit (SetBatchProgress 0 0) (s\<lparr>isBatchProcessing := False, batchProgress := (0, 0)\<rparr>)"

definition processBatchImages :: "'t env \<Rightarrow> state \<Rightarrow> outcome" where
  "processBatchImages env s =
     (if model_ready s
      then (if length (batchImages s) = 0
            then NotStarted (s\<lparr>trace := [Alert AlertNotReady]\<rparr>)
            else (case try_block env (start s) of
                    Done s' \<Rightarrow> Completed (cleanup s')
                  | Thrown s' \<Rightarrow> Failed (cleanup (emit (Alert AlertFailed) s'))
                  | Hung s' \<Rightarrow> Stalled s'))
      else NotStarted (s\<lparr>trace := [Alert AlertNotReady]\<rparr>))"

section \<open>Notions used to state the properties\<close>

text \<open>Index \<open>i\<close> holds a value that is at least every value of the vector.\<close>

definition attains_max :: "jsnum list \<Rightarrow> nat \<Rightarrow> bool" where
  "attains_max p i = (i < length p \<and> list_all (\<lambda>x. js_ge (js_index p i) x) p)"

text \<open>Index \<open>i\<close> is the least index that does.\<close>

definition first_maximum :: "jsnum list \<Rightarrow> nat \<Rightarrow> bool" where
  "first_maximum p i = (attains_max p i \<and> list_all (\<lambda>k. \<not> attains_max p k) [0..<i])"

text \<open>
  The label and the confidence that the loop body computes for an image, when the image
  loads and the model answers.
\<close>

definition classify :: "'t env \<Rightarrow> string list \<Rightarrow> jsfile \<Rightarrow> (string \<times> jsnum) option" where
  "classify env labels img =
     (case image_load env img of
        None \<Rightarrow> None
      | Some t \<Rightarrow>
          (case model_predict env t of
             None \<Rightarrow> None
           | Some probabilities \<Rightarrow>
               Some (label_of labels (fst (argmax probabilities)), snd (argmax probabilities))))"

definition routed :: "'t env \<Rightarrow> string list \<Rightarrow> jsfile \<Rightarrow> category option" where
  "routed env labels img =
     (case classify env labels img of None \<Rightarrow> None | Some (l, c) \<Rightarrow> Some (route c l))"

text \<open>A result belongs to an input: it refers to that file and holds its label and confidence.\<close>

definition corresponds :: "'t env \<Rightarrow> string list \<Rightarrow> jsfile \<Rightarrow> classified \<Rightarrow> bool" where
  "corresponds env labels img r =
     (file' r = img \<and> classify env labels img = Some (classification r, confidence r))"

text \<open>The events of one fully processed image at index \<open>k\<close> of \<open>n\<close>, in order.\<close>

definition item_events :: "'t env \<Rightarrow> string list \<Rightarrow> nat \<Rightarrow> nat \<Rightarrow> jsfile \<Rightarrow> event list" where
  "item_events env labels n k img =
     (case classify env labels img of
        None \<Rightarrow> []
      | Some (l, c) \<Rightarrow>
          [SetBatchProgress (k + 1) n,
           PreprocessImage img,
           Predict img,
           PushCategory (route c l) img,
           PushProcessed \<lparr>file' = img, classification = l, timestamp = date_now env k, confidence = c\<rparr>,
           OnImageClassified img l])"

text \<open>
  What the loop has published after the last fully processed image when it stops at index
  \<open>k\<close> of \<open>n\<close>, with \<open>rest\<close> the images from that index on.
\<close>

fun stop_events :: "completion \<Rightarrow> nat \<Rightarrow> nat \<Rightarrow> jsfile list \<Rightarrow> event list" where
  "stop_events (Thrown _) k n (x # _) = [SetBatchProgress (k + 1) n, PreprocessImage x, Predict x]"
| "stop_events (Hung _) k n (x # _) = [SetBatchProgress (k + 1) n, PreprocessImage x]"
| "stop_events _ k n _ = []"

text \<open>The progress values a run has published, in order.\<close>

fun progress_updates :: "event list \<Rightarrow> (nat \<times> nat) list" where
  "progress_updates [] = []"
| "progress_updates (SetBatchProgress c t # es) = (c, t) # progress_updates es"
| "progress_updates (_ # es) = progress_updates es"

text \<open>The archives a run has offered for download.\<close>

fun downloads :: "event list \<Rightarrow> zip list" where
  "downloads [] = []"
| "downloads (Download _ z # es) = z # downloads es"
| "downloads (_ # es) = downloads es"

text \<open>The file entries of an archive below a folder, and all of its file entries.\<close>

fun is_file_entry :: "string \<times> zentry \<Rightarrow> bool" where
  "is_file_entry (_, FileData _) = True"
| "is_file_entry (_, Folder) = False"

definition files_in :: "string \<Rightarrow> zip \<Rightarrow> (string \<times> zentry) list" where
  "files_in cat z = filter (\<lambda>e. is_file_entry e \<and> prefix (cat @ ''/'') (fst e)) z"

definition has_folder :: "string \<Rightarrow> zip \<Rightarrow> bool" where
  "has_folder cat z = ((cat @ ''/'', Folder) \<in> set z)"

text \<open>The entries that one non-empty folder block adds, written out.\<close>

fun image_entries :: "'t env \<Rightarrow> string \<Rightarrow> nat \<Rightarrow> nat \<Rightarrow> jsfile list \<Rightarrow> (string \<times> zentry) list" where
  "image_entries env cat index reads [] = []"
| "image_entries env cat index reads (img # images) =
     (cat @ ''/'' @ file_name cat (date_now env reads) index, FileData img) #
     image_entries env cat (index + 1) (reads + 1) images"

definition folder_entries :: "'t env \<Rightarrow> string \<Rightarrow> nat \<Rightarrow> jsfile list \<Rightarrow> (string \<times> zentry) list" where
  "folder_entries env cat reads images =
     (if images = [] then [] else (cat @ ''/'', Folder) # image_entries env cat 0 reads images)"

section \<open>Sample inputs\<close>

definition sample_a :: jsfile where
  "sample_a = \<lparr>fname = ''a.png'', ftype = ''image/png'', fbytes = [1, 2]\<rparr>"

definition sample_b :: jsfile where
  "sample_b = \<lparr>fname = ''b.jpg'', ftype = ''image/jpeg'', fbytes = [3]\<rparr>"

definition sample_c :: jsfile where
  "sample_c = \<lparr>fname = ''c.gif'', ftype = ''image/gif'', fbytes = []\<rparr>"

text \<open>
  A model that answers \<open>[1, 0]\<close>, \<open>[0, 1]\<close> and \<open>[0.8, 0.2]\<close> on the three samples; the
  tensor of a file is stood for by its bytes, and the clock stands still at 5.
\<close>

definition sample_predict :: "nat list \<Rightarrow> jsnum list option" where
  "sample_predict t =
     (if t = [1, 2] then Some [Fin 1, Fin 0]
      else if t = [3] then Some [Fin 0, Fin 1]
      else Some [Fin 0.8, Fin 0.2])"

definition sample_env :: "nat list env" where
  "sample_env =
     \<lparr>image_load = (\<lambda>f. Some (fbytes f)),
      model_predict = sample_predict,
      date_now = (\<lambda>k. 5),
      toISOString = (\<lambda>t. ''2026-11-03T10:53:00.000Z''),
      import_jszip = True,
      generateAsync = (\<lambda>z. True)\<rparr>"

definition sample_state :: "jsfile list \<Rightarrow> state" where
  "sample_state images =
     \<lparr>model_ready = True, classNames = [''normal'', ''tampered''], classifiedImages = [],
      batchImages = images, isBatchProcessing = False, batchProgress = (0, 0),
      normalImages = [], theftImages = [], unidentifiedImages = [], processedImages = [],
      clock_reads = 0, trace = []\<rparr>"

section \<open>Comparisons\<close>

lemma js_lt_not_ge: "js_lt a b \<Longrightarrow> \<not> js_ge a b"
  by (cases a; cases b) (simp_all add: js_lt_def)

lemma js_not_gt_ge: "comparable a \<Longrightarrow> comparable b \<Longrightarrow> \<not> js_gt a b \<Longrightarrow> js_ge b a"
  by (cases a; cases b) simp_all

lemma js_gt_not_ge: "js_gt a b \<Longrightarrow> \<not> js_ge b a"
  by (cases a; cases b) simp_all

lemma js_gt_ge: "js_gt a b \<Longrightarrow> js_ge a b"
  by (cases a; cases b) simp_all

lemma js_ge_refl: "comparable a \<Longrightarrow> js_ge a a"
  by (cases a) simp_all

lemma js_ge_trans: "js_ge a b \<Longrightarrow> js_ge b c \<Longrightarrow> js_ge a c"
  by (cases a; cases b; cases c) simp_all

lemma js_gt_ge_trans: "js_gt a b \<Longrightarrow> js_ge b c \<Longrightarrow> js_gt a c"
  by (cases a; cases b; cases c) simp_all

lemma argmax_loop_inv:
  assumes "list_all comparable p" "mi < j" "j \<le> length p" "mp = p ! mi"
    "\<forall>k<j. js_ge mp (p ! k)" "\<forall>k<mi. js_gt mp (p ! k)"
  shows "case argmax_loop p j (mi, mp) of (i, m) \<Rightarrow>
           i < length p \<and> m = p ! i \<and> (\<forall>k<length p. js_ge m (p ! k)) \<and> (\<forall>k<i. js_gt m (p ! k))"
  using assms
proof (induction p j "(mi, mp)" arbitrary: mi mp rule: argmax_loop.induct)
  case (1 p j mi mp)
  show ?case
  proof (cases "j < length p")
    case False
    with "1.prems" have "j = length p" by simp
    with "1.prems" False show ?thesis by simp
  next
    case inside: True
    have cj: "comparable (p ! j)" and cm: "comparable mp"
      using "1.prems" inside by (simp_all add: list_all_length)
    show ?thesis
    proof (cases "js_gt (p ! j) mp")
      case True
      have a: "\<forall>k<j + 1. js_ge (p ! j) (p ! k)"
      proof (intro allI impI)
        fix k assume "k < j + 1"
        then consider "k < j" | "k = j" by linarith
        then show "js_ge (p ! j) (p ! k)"
        proof cases
          case 1
          with "1.prems" have "js_ge mp (p ! k)" by simp
          with True show ?thesis using js_gt_ge js_ge_trans by blast
        next
          case 2
          then show ?thesis using cj js_ge_refl by simp
        qed
      qed
      have b: "\<forall>k<j. js_gt (p ! j) (p ! k)"
        using True "1.prems" js_gt_ge_trans by blast
      have "case argmax_loop p (j + 1) (j, js_index p j) of (i, m) \<Rightarrow>
           i < length p \<and> m = p ! i \<and> (\<forall>k<length p. js_ge m (p ! k)) \<and> (\<forall>k<i. js_gt m (p ! k))"
        using inside True a b "1.prems"(1)
        by (intro "1.hyps"(1)) (simp_all add: js_index_def)
      then show ?thesis using inside True by (simp add: js_index_def)
    next
      case False
      have a: "\<forall>k<j + 1. js_ge mp (p ! k)"
      proof (intro allI impI)
        fix k assume "k < j + 1"
        then consider "k < j" | "k = j" by linarith
        then show "js_ge mp (p ! k)"
        proof cases
          case 1
          with "1.prems" show ?thesis by simp
        next
          case 2
          then show ?thesis using False cj cm js_not_gt_ge by simp
        qed
      qed
      have "case argmax_loop p (j + 1) (mi, mp) of (i, m) \<Rightarrow>
           i < length p \<and> m = p ! i \<and> (\<forall>k<length p. js_ge m (p ! k)) \<and> (\<forall>k<i. js_gt m (p ! k))"
        using inside False a "1.prems"
        by (intro "1.hyps"(2)) (simp_all add: js_index_def)
      then show ?thesis using inside False by (simp add: js_index_def)
    qed
  qed
qed

lemma argmax_props:
  assumes "p \<noteq> []" "list_all comparable p"
  shows "case argmax p of (i, m) \<Rightarrow>
           i < length p \<and> m = p ! i \<and> (\<forall>k<length p. js_ge m (p ! k)) \<and> (\<forall>k<i. js_gt m (p ! k))"
proof -
  from assms have len: "0 < length p" by simp
  have c0: "comparable (p ! 0)" using assms len by (simp add: list_all_length)
  have "\<forall>k<1. js_ge (p ! 0) (p ! k)" using c0 js_ge_refl by simp
  then show ?thesis
    unfolding argmax_def using assms len
    by (intro argmax_loop_inv) (auto simp: js_index_def Suc_le_eq)
qed

section \<open>File names\<close>

lemma string_of_nat_small: "n < 10 \<Longrightarrow> string_of_nat n = [digit_char n]"
  by (subst string_of_nat.simps) simp

lemma string_of_nat_large:
  "\<not> n < 10 \<Longrightarrow> string_of_nat n = string_of_nat (n div 10) @ [digit_char (n mod 10)]"
  by (subst string_of_nat.simps) simp

lemma digit_char_inj: "a < 10 \<Longrightarrow> b < 10 \<Longrightarrow> digit_char a = digit_char b \<Longrightarrow> a = b"
  by (simp add: digit_char_def)

lemma digit_char_not_underscore: "d < 10 \<Longrightarrow> digit_char d \<noteq> CHR ''_''"
  by (simp add: digit_char_def char_of_eq_iff take_bit_eq_mod)

lemma string_of_nat_nonempty: "string_of_nat n \<noteq> []"
  by (cases "n < 10") (simp_all add: string_of_nat_small string_of_nat_large)

lemma string_of_nat_single: "string_of_nat n = [c] \<Longrightarrow> n < 10"
  by (cases "n < 10") (simp_all add: string_of_nat_large string_of_nat_nonempty)

lemma string_of_nat_inj: "string_of_nat n = string_of_nat m \<Longrightarrow> n = m"
proof (induction n arbitrary: m rule: string_of_nat.induct)
  case (1 n)
  show ?case
  proof (cases "n < 10")
    case True
    then have n: "string_of_nat n = [digit_char n]" by (rule string_of_nat_small)
    with "1.prems" have "string_of_nat m = [digit_char n]" by simp
    then have "m < 10" by (rule string_of_nat_single)
    then have "string_of_nat m = [digit_char m]" by (rule string_of_nat_small)
    with n "1.prems" True \<open>m < 10\<close> show ?thesis using digit_char_inj by simp
  next
    case False
    then have n: "string_of_nat n = string_of_nat (n div 10) @ [digit_char (n mod 10)]"
      by (rule string_of_nat_large)
    have "\<not> m < 10"
    proof
      assume "m < 10"
      then have "string_of_nat m = [digit_char m]" by (rule string_of_nat_small)
      with "1.prems" have "string_of_nat n = [digit_char m]" by simp
      then show False using string_of_nat_single False by blast
    qed
    then have m: "string_of_nat m = string_of_nat (m div 10) @ [digit_char (m mod 10)]"
      by (rule string_of_nat_large)
    from n m "1.prems" have a: "string_of_nat (n div 10) = string_of_nat (m div 10)"
      and b: "digit_char (n mod 10) = digit_char (m mod 10)" by simp_all
    from "1.IH" [OF False a] have "n div 10 = m div 10" .
    moreover from b have "n mod 10 = m mod 10" using digit_char_inj by simp
    ultimately show ?thesis by (metis div_mult_mod_eq)
  qed
qed

lemma string_of_nat_no_underscore: "CHR ''_'' \<notin> set (string_of_nat n)"
proof (induction n rule: string_of_nat.induct)
  case (1 n)
  show ?case
  proof (cases "n < 10")
    case True
    then show ?thesis using digit_char_not_underscore [of n] by (simp add: string_of_nat_small)
  next
    case False
    then have "string_of_nat n = string_of_nat (n div 10) @ [digit_char (n mod 10)]"
      by (rule string_of_nat_large)
    with "1.IH" [OF False] digit_char_not_underscore [of "n mod 10"] show ?thesis by simp
  qed
qed

lemma string_of_int_no_underscore: "CHR ''_'' \<notin> set (string_of_int i)"
  by (simp add: string_of_int_def string_of_nat_no_underscore)

lemma split_at_separator:
  "c \<notin> set a \<Longrightarrow> c \<notin> set a' \<Longrightarrow> a @ c # b = a' @ c # b' \<Longrightarrow> a = a' \<and> b = b'"
proof (induction a arbitrary: a')
  case Nil
  then show ?case by (cases a') auto
next
  case (Cons x a)
  then show ?case by (cases a') auto
qed

lemma file_name_inj: "file_name cat t i = file_name cat t' j \<Longrightarrow> i = j"
proof -
  assume "file_name cat t i = file_name cat t' j"
  then have "string_of_int t @ CHR ''_'' # (string_of_nat i @ ''.jpg'') =
      string_of_int t' @ CHR ''_'' # (string_of_nat j @ ''.jpg'')"
    by (simp add: file_name_def)
  from split_at_separator [OF string_of_int_no_underscore string_of_int_no_underscore this]
  have "string_of_nat i = string_of_nat j" by simp
  then show ?thesis by (rule string_of_nat_inj)
qed

lemma file_name_suffix: "suffix ''.jpg'' (dir @ file_name cat t i)"
  by (simp add: file_name_def suffix_def)

lemma file_name_nonempty: "file_name cat t i \<noteq> []"
  by (simp add: file_name_def)

lemma update_fresh: "k \<notin> fst ` set al \<Longrightarrow> AList.update k v al = al @ [(k, v)]"
  by (induction al) auto

section \<open>The loop over the images\<close>

lemma emit_fields [simp]:
  "trace (emit e s) = trace s @ [e]"
  "model_ready (emit e s) = model_ready s"
  "classNames (emit e s) = classNames s"
  "classifiedImages (emit e s) = classifiedImages s"
  "batchImages (emit e s) = batchImages s"
  "isBatchProcessing (emit e s) = isBatchProcessing s"
  "batchProgress (emit e s) = batchProgress s"
  "normalImages (emit e s) = normalImages s"
  "theftImages (emit e s) = theftImages s"
  "unidentifiedImages (emit e s) = unidentifiedImages s"
  "processedImages (emit e s) = processedImages s"
  "clock_reads (emit e s) = clock_reads s"
  by (simp_all add: emit_def)

lemma push_category_fields [simp]:
  "trace (push_category c img s) = trace s"
  "model_ready (push_category c img s) = model_ready s"
  "classNames (push_category c img s) = classNames s"
  "classifiedImages (push_category c img s) = classifiedImages s"
  "batchImages (push_category c img s) = batchImages s"
  "isBatchProcessing (push_category c img s) = isBatchProcessing s"
  "batchProgress (push_category c img s) = batchProgress s"
  "processedImages (push_category c img s) = processedImages s"
  "clock_reads (push_category c img s) = clock_reads s"
  by (cases c; simp)+

lemma push_category_arrays [simp]:
  "normalImages (push_category c img s) = normalImages s @ (if c = Normal then [img] else [])"
  "theftImages (push_category c img s) = theftImages s @ (if c = Theft then [img] else [])"
  "unidentifiedImages (push_category c img s) =
     unidentifiedImages s @ (if c = Unidentified then [img] else [])"
  by (cases c; simp)+

text \<open>The three ways the loop body ends.\<close>

lemma classify_image_Hung:
  "image_load env img = None \<Longrightarrow>
   classify_image env i img s =
     Hung (emit (PreprocessImage img)
            (emit (SetBatchProgress (i + 1) (length (batchImages s)))
               (s\<lparr>batchProgress := (i + 1, length (batchImages s))\<rparr>)))"
  by (simp add: classify_image_def preprocessImage_def)

lemma classify_image_Thrown:
  "image_load env img = Some t \<Longrightarrow> model_predict env t = None \<Longrightarrow>
   classify_image env i img s =
     Thrown (emit (Predict img) (emit (PreprocessImage img)
            (emit (SetBatchProgress (i + 1) (length (batchImages s)))
               (s\<lparr>batchProgress := (i + 1, length (batchImages s))\<rparr>))))"
  by (simp add: classify_image_def preprocessImage_def)

lemma classify_image_Done_iff:
  "(\<exists>s'. classify_image env i img s = Done s') \<longleftrightarrow> classify env labels img \<noteq> None"
  by (auto simp: classify_image_def preprocessImage_def classify_def Let_def
      split: option.splits prod.splits)

lemma classify_image_Done:
  assumes "classify_image env i img s = Done s'"
  shows "\<exists>l c. classify env (classNames s) img = Some (l, c) \<and>
    processedImages s' = processedImages s @
      [\<lparr>file' = img, classification = l, timestamp = date_now env (clock_reads s), confidence = c\<rparr>] \<and>
    normalImages s' = normalImages s @ (if route c l = Normal then [img] else []) \<and>
    theftImages s' = theftImages s @ (if route c l = Theft then [img] else []) \<and>
    unidentifiedImages s' = unidentifiedImages s @ (if route c l = Unidentified then [img] else []) \<and>
    trace s' = trace s @
      [SetBatchProgress (i + 1) (length (batchImages s)), PreprocessImage img, Predict img,
       PushCategory (route c l) img,
       PushProcessed \<lparr>file' = img, classification = l, timestamp = date_now env (clock_reads s),
         confidence = c\<rparr>,
       OnImageClassified img l] \<and>
    batchProgress s' = (i + 1, length (batchImages s)) \<and>
    clock_reads s' = clock_reads s + 1 \<and>
    model_ready s' = model_ready s \<and> classNames s' = classNames s \<and>
    classifiedImages s' = classifiedImages s \<and> batchImages s' = batchImages s \<and>
    isBatchProcessing s' = isBatchProcessing s"
proof -
  from assms obtain t probs
    where t: "image_load env img = Some t" and p: "model_predict env t = Some probs"
    by (auto simp: classify_image_def preprocessImage_def Let_def split: option.splits)
  define l where "l = label_of (classNames s) (fst (argmax probs))"
  define c where "c = snd (argmax probs)"
  have cl: "classify env (classNames s) img = Some (l, c)"
    by (simp add: classify_def t p l_def c_def)
  have "Done s' = classify_image env i img s" using assms by simp
  also have "\<dots> = Done (emit (OnImageClassified img l)
      (emit (PushProcessed \<lparr>file' = img, classification = l,
               timestamp = date_now env (clock_reads s), confidence = c\<rparr>)
        ((emit (PushCategory (route c l) img)
           (push_category (route c l) img
             ((emit (Predict img) (emit (PreprocessImage img)
                (emit (SetBatchProgress (i + 1) (length (batchImages s)))
                  (s\<lparr>batchProgress := (i + 1, length (batchImages s))\<rparr>))))
              \<lparr>clock_reads := clock_reads s + 1\<rparr>)))
         \<lparr>processedImages := processedImages s @
            [\<lparr>file' = img, classification = l,
               timestamp = date_now env (clock_reads s), confidence = c\<rparr>]\<rparr>)))"
    by (simp add: classify_image_def preprocessImage_def t p Let_def case_prod_beta l_def c_def)
  finally have s': "s' = emit (OnImageClassified img l)
      (emit (PushProcessed \<lparr>file' = img, classification = l,
               timestamp = date_now env (clock_reads s), confidence = c\<rparr>)
        ((emit (PushCategory (route c l) img)
           (push_category (route c l) img
             ((emit (Predict img) (emit (PreprocessImage img)
                (emit (SetBatchProgress (i + 1) (length (batchImages s)))
                  (s\<lparr>batchProgress := (i + 1, length (batchImages s))\<rparr>))))
              \<lparr>clock_reads := clock_reads s + 1\<rparr>)))
         \<lparr>processedImages := processedImages s @
            [\<lparr>file' = img, classification = l,
               timestamp = date_now env (clock_reads s), confidence = c\<rparr>]\<rparr>))"
    by simp
  show ?thesis
    apply (rule exI [of _ l], rule exI [of _ c])
    apply (simp only: s' cl)
    apply simp
    done
qed


lemma batch_loop_Cons_Done:
  assumes "batch_loop env i (img # images) s = Done s'"
  obtains s1 where "classify_image env i img s = Done s1"
    and "batch_loop env (i + 1) images s1 = Done s'"
  using assms by (auto split: completion.splits)

lemma batch_loop_frame:
  "batch_loop env i images s = Done s' \<Longrightarrow>
   model_ready s' = model_ready s \<and> classNames s' = classNames s \<and>
   classifiedImages s' = classifiedImages s \<and> batchImages s' = batchImages s \<and>
   isBatchProcessing s' = isBatchProcessing s \<and>
   clock_reads s' = clock_reads s + length images"
proof (induction images arbitrary: i s)
  case Nil
  then show ?case by simp
next
  case (Cons img images)
  from Cons.prems(1) obtain s1 where a: "classify_image env i img s = Done s1"
    and b: "batch_loop env (i + 1) images s1 = Done s'"
    by (rule batch_loop_Cons_Done)
  from classify_image_Done [OF a] Cons.IH [OF b] show ?case by auto
qed

lemma batch_loop_results:
  "batch_loop env i images s = Done s' \<Longrightarrow>
   \<exists>ps. processedImages s' = processedImages s @ ps \<and>
        list_all2 (corresponds env (classNames s)) images ps"
proof (induction images arbitrary: i s)
  case Nil
  then show ?case by simp
next
  case (Cons img images)
  from Cons.prems(1) obtain s1 where a: "classify_image env i img s = Done s1"
    and b: "batch_loop env (i + 1) images s1 = Done s'"
    by (rule batch_loop_Cons_Done)
  from classify_image_Done [OF a] obtain l c
    where cl: "classify env (classNames s) img = Some (l, c)"
      and p1: "processedImages s1 = processedImages s @
        [\<lparr>file' = img, classification = l, timestamp = date_now env (clock_reads s),
          confidence = c\<rparr>]"
      and cn: "classNames s1 = classNames s"
    by blast
  from Cons.IH [OF b] obtain ps where ps: "processedImages s' = processedImages s1 @ ps"
    and all: "list_all2 (corresponds env (classNames s1)) images ps"
    by blast
  let ?r = "\<lparr>file' = img, classification = l, timestamp = date_now env (clock_reads s),
          confidence = c\<rparr>"
  have "processedImages s' = processedImages s @ (?r # ps)" using ps p1 by simp
  moreover have "list_all2 (corresponds env (classNames s)) (img # images) (?r # ps)"
    using all cl cn by (simp add: corresponds_def)
  ultimately show ?case by blast
qed

lemma batch_loop_arrays:
  "batch_loop env i images s = Done s' \<Longrightarrow>
   normalImages s' =
     normalImages s @ filter (\<lambda>x. routed env (classNames s) x = Some Normal) images \<and>
   theftImages s' =
     theftImages s @ filter (\<lambda>x. routed env (classNames s) x = Some Theft) images \<and>
   unidentifiedImages s' =
     unidentifiedImages s @ filter (\<lambda>x. routed env (classNames s) x = Some Unidentified) images"
proof (induction images arbitrary: i s)
  case Nil
  then show ?case by simp
next
  case (Cons img images)
  from Cons.prems(1) obtain s1 where a: "classify_image env i img s = Done s1"
    and b: "batch_loop env (i + 1) images s1 = Done s'"
    by (rule batch_loop_Cons_Done)
  from classify_image_Done [OF a] obtain l c
    where cl: "classify env (classNames s) img = Some (l, c)"
      and n1: "normalImages s1 = normalImages s @ (if route c l = Normal then [img] else [])"
      and t1: "theftImages s1 = theftImages s @ (if route c l = Theft then [img] else [])"
      and u1: "unidentifiedImages s1 =
         unidentifiedImages s @ (if route c l = Unidentified then [img] else [])"
      and cn: "classNames s1 = classNames s"
    by blast
  have r: "routed env (classNames s) img = Some (route c l)" by (simp add: routed_def cl)
  from Cons.IH [OF b] show ?case by (simp add: n1 t1 u1 cn r)
qed

lemma batch_loop_trace:
  "batch_loop env i images s = Done s' \<Longrightarrow> clock_reads s = i \<Longrightarrow>
   trace s' = trace s @
     concat (map (\<lambda>(k, x). item_events env (classNames s) (length (batchImages s)) k x)
       (enumerate i images))"
proof (induction images arbitrary: i s)
  case Nil
  then show ?case by simp
next
  case (Cons img images)
  from Cons.prems(1) obtain s1 where a: "classify_image env i img s = Done s1"
    and b: "batch_loop env (i + 1) images s1 = Done s'"
    by (rule batch_loop_Cons_Done)
  from classify_image_Done [OF a] obtain l c
    where cl: "classify env (classNames s) img = Some (l, c)"
      and tr: "trace s1 = trace s @
        [SetBatchProgress (i + 1) (length (batchImages s)), PreprocessImage img, Predict img,
         PushCategory (route c l) img,
         PushProcessed \<lparr>file' = img, classification = l,
           timestamp = date_now env (clock_reads s), confidence = c\<rparr>,
         OnImageClassified img l]"
      and cn: "classNames s1 = classNames s" and bi: "batchImages s1 = batchImages s"
      and cr: "clock_reads s1 = clock_reads s + 1"
    by blast
  have ev: "item_events env (classNames s) (length (batchImages s)) i img =
        [SetBatchProgress (i + 1) (length (batchImages s)), PreprocessImage img, Predict img,
         PushCategory (route c l) img,
         PushProcessed \<lparr>file' = img, classification = l,
           timestamp = date_now env (clock_reads s), confidence = c\<rparr>,
         OnImageClassified img l]"
    using Cons.prems(2) by (simp add: item_events_def cl)
  have "clock_reads s1 = i + 1" using cr Cons.prems(2) by simp
  from Cons.IH [OF b this] show ?case by (simp add: tr cn bi ev)
qed

lemma batch_loop_progress:
  "batch_loop env i images s = Done s' \<Longrightarrow> images \<noteq> [] \<Longrightarrow>
   batchProgress s' = (i + length images, length (batchImages s))"
proof (induction images arbitrary: i s)
  case Nil
  then show ?case by simp
next
  case (Cons img images)
  from Cons.prems(1) obtain s1 where a: "classify_image env i img s = Done s1"
    and b: "batch_loop env (i + 1) images s1 = Done s'"
    by (rule batch_loop_Cons_Done)
  from classify_image_Done [OF a]
  have p1: "batchProgress s1 = (i + 1, length (batchImages s))"
    and bi: "batchImages s1 = batchImages s" by blast+
  show ?case
  proof (cases images)
    case Nil
    with b p1 show ?thesis by simp
  next
    case (Cons x xs)
    then have "images \<noteq> []" by simp
    from Cons.IH [OF b this] show ?thesis by (simp add: bi)
  qed
qed

text \<open>The loop ends normally exactly when every image loads and the model answers on it.\<close>

lemma batch_loop_completes:
  "list_all (\<lambda>x. classify env (classNames s) x \<noteq> None) images \<Longrightarrow>
   \<exists>s'. batch_loop env i images s = Done s'"
proof (induction images arbitrary: i s)
  case Nil
  then show ?case by simp
next
  case (Cons img images)
  then have "classify env (classNames s) img \<noteq> None" by simp
  then obtain s1 where a: "classify_image env i img s = Done s1"
    using classify_image_Done_iff by blast
  from classify_image_Done [OF a] have "classNames s1 = classNames s" by blast
  with Cons.prems have "list_all (\<lambda>x. classify env (classNames s1) x \<noteq> None) images" by simp
  from Cons.IH [OF this] obtain s' where "batch_loop env (i + 1) images s1 = Done s'" by blast
  with a show ?case by simp
qed

lemma progress_updates_append:
  "progress_updates (xs @ ys) = progress_updates xs @ progress_updates ys"
  by (induction xs rule: progress_updates.induct) simp_all

lemma batch_loop_progress_updates:
  "batch_loop env i images s = Done s' \<Longrightarrow>
   progress_updates (trace s') =
     progress_updates (trace s) @
     map (\<lambda>k. (k + 1, length (batchImages s))) [i..<i + length images]"
proof (induction images arbitrary: i s)
  case Nil
  then show ?case by simp
next
  case (Cons img images)
  from Cons.prems(1) obtain s1 where a: "classify_image env i img s = Done s1"
    and b: "batch_loop env (i + 1) images s1 = Done s'"
    by (rule batch_loop_Cons_Done)
  from classify_image_Done [OF a] obtain l c
    where tr: "trace s1 = trace s @
        [SetBatchProgress (i + 1) (length (batchImages s)), PreprocessImage img, Predict img,
         PushCategory (route c l) img,
         PushProcessed \<lparr>file' = img, classification = l,
           timestamp = date_now env (clock_reads s), confidence = c\<rparr>,
         OnImageClassified img l]"
      and bi: "batchImages s1 = batchImages s"
    by blast
  have "[i..<i + length (img # images)] = i # [i + 1..<i + 1 + length images]"
    by (subst upt_rec) simp
  with Cons.IH [OF b] show ?case
    by (simp add: tr bi progress_updates_append)
qed

lemma classify_image_Thrown_D:
  assumes "classify_image env i img s = Thrown s1"
  shows "classify env labels img = None \<and>
    s1 = emit (Predict img) (emit (PreprocessImage img)
            (emit (SetBatchProgress (i + 1) (length (batchImages s)))
               (s\<lparr>batchProgress := (i + 1, length (batchImages s))\<rparr>)))"
  using assms
  by (auto simp: classify_image_def preprocessImage_def classify_def Let_def
      split: option.splits prod.splits)

lemma classify_image_Hung_D:
  assumes "classify_image env i img s = Hung s1"
  shows "classify env labels img = None \<and>
    s1 = emit (PreprocessImage img)
            (emit (SetBatchProgress (i + 1) (length (batchImages s)))
               (s\<lparr>batchProgress := (i + 1, length (batchImages s))\<rparr>))"
  using assms
  by (auto simp: classify_image_def preprocessImage_def classify_def Let_def
      split: option.splits prod.splits)

lemma batch_loop_shape:
  assumes "clock_reads s = i"
  shows "\<exists>k. k \<le> length images \<and>
    list_all (\<lambda>x. classify env (classNames s) x \<noteq> None) (take k images) \<and>
    trace (state_of_completion (batch_loop env i images s)) =
      trace s @
      concat (map (\<lambda>(j, x). item_events env (classNames s) (length (batchImages s)) j x)
        (enumerate i (take k images))) @
      stop_events (batch_loop env i images s) (i + k) (length (batchImages s)) (drop k images) \<and>
    length (processedImages (state_of_completion (batch_loop env i images s))) =
      length (processedImages s) + k \<and>
    (case batch_loop env i images s of
       Done _ \<Rightarrow> k = length images
     | _ \<Rightarrow> k < length images \<and>
         batchProgress (state_of_completion (batch_loop env i images s)) =
           (i + k + 1, length (batchImages s)))"
  using assms
proof (induction images arbitrary: i s)
  case Nil
  then show ?case by simp
next
  case (Cons img images)
  show ?case
  proof (cases "classify_image env i img s")
    case (Done s1)
    from classify_image_Done [OF Done] obtain l c
      where cl: "classify env (classNames s) img = Some (l, c)"
        and tr: "trace s1 = trace s @
          [SetBatchProgress (i + 1) (length (batchImages s)), PreprocessImage img, Predict img,
           PushCategory (route c l) img,
           PushProcessed \<lparr>file' = img, classification = l,
             timestamp = date_now env (clock_reads s), confidence = c\<rparr>,
           OnImageClassified img l]"
        and pr: "processedImages s1 = processedImages s @
          [\<lparr>file' = img, classification = l, timestamp = date_now env (clock_reads s),
            confidence = c\<rparr>]"
        and cn: "classNames s1 = classNames s" and bi: "batchImages s1 = batchImages s"
        and cr: "clock_reads s1 = clock_reads s + 1"
      by blast
    have ev: "item_events env (classNames s) (length (batchImages s)) i img =
          [SetBatchProgress (i + 1) (length (batchImages s)), PreprocessImage img, Predict img,
           PushCategory (route c l) img,
           PushProcessed \<lparr>file' = img, classification = l,
             timestamp = date_now env (clock_reads s), confidence = c\<rparr>,
           OnImageClassified img l]"
      using Cons.prems by (simp add: item_events_def cl)
    have "clock_reads s1 = i + 1" using cr Cons.prems by simp
    from Cons.IH [OF this] obtain k where k: "k \<le> length images"
      and ok: "list_all (\<lambda>x. classify env (classNames s1) x \<noteq> None) (take k images)"
      and t: "trace (state_of_completion (batch_loop env (i + 1) images s1)) =
        trace s1 @
        concat (map (\<lambda>(j, x). item_events env (classNames s1) (length (batchImages s1)) j x)
          (enumerate (i + 1) (take k images))) @
        stop_events (batch_loop env (i + 1) images s1) (i + 1 + k) (length (batchImages s1))
          (drop k images)"
      and p: "length (processedImages (state_of_completion (batch_loop env (i + 1) images s1))) =
        length (processedImages s1) + k"
      and e: "(case batch_loop env (i + 1) images s1 of
         Done _ \<Rightarrow> k = length images
       | _ \<Rightarrow> k < length images \<and>
           batchProgress (state_of_completion (batch_loop env (i + 1) images s1)) =
             (i + 1 + k + 1, length (batchImages s1)))"
      by blast
    have r: "batch_loop env i (img # images) s = batch_loop env (i + 1) images s1"
      using Done by simp
    show ?thesis
      apply (rule exI [of _ "Suc k"])
      apply (simp only: r)
      using k ok t p e
      apply (simp add: cn bi tr pr ev cl split: completion.splits)
      done
  next
    case (Thrown s1)
    from classify_image_Thrown_D [OF Thrown, of "classNames s"]
    have s1: "s1 = emit (Predict img) (emit (PreprocessImage img)
            (emit (SetBatchProgress (i + 1) (length (batchImages s)))
               (s\<lparr>batchProgress := (i + 1, length (batchImages s))\<rparr>)))"
      by blast
    have r: "batch_loop env i (img # images) s = Thrown s1" using Thrown by simp
    show ?thesis
      apply (rule exI [of _ 0])
      apply (simp only: r)
      apply (simp add: s1)
      done
  next
    case (Hung s1)
    from classify_image_Hung_D [OF Hung, of "classNames s"]
    have s1: "s1 = emit (PreprocessImage img)
            (emit (SetBatchProgress (i + 1) (length (batchImages s)))
               (s\<lparr>batchProgress := (i + 1, length (batchImages s))\<rparr>))"
      by blast
    have r: "batch_loop env i (img # images) s = Hung s1" using Hung by simp
    show ?thesis
      apply (rule exI [of _ 0])
      apply (simp only: r)
      apply (simp add: s1)
      done
  qed
qed

lemma downloads_append: "downloads (xs @ ys) = downloads xs @ downloads ys"
  by (induction xs rule: downloads.induct) simp_all

lemma downloads_item_events: "downloads (item_events env labels n k img) = []"
  by (simp add: item_events_def split: option.splits)

lemma downloads_concat_item_events:
  "downloads (concat (map (\<lambda>(j, x). item_events env labels n j x) xs)) = []"
  by (induction xs) (auto simp: downloads_append downloads_item_events)

lemma batch_loop_stalls:
  assumes "list_all (\<lambda>x. classify env (classNames s) x \<noteq> None) pre"
    and "image_load env img = None"
  shows "\<exists>s'. batch_loop env i (pre @ img # post) s = Hung s' \<and>
    isBatchProcessing s' = isBatchProcessing s \<and>
    batchProgress s' = (i + length pre + 1, length (batchImages s)) \<and>
    length (processedImages s') = length (processedImages s) + length pre \<and>
    classifiedImages s' = classifiedImages s \<and> batchImages s' = batchImages s"
  using assms
proof (induction pre arbitrary: i s)
  case Nil
  then show ?case by (simp add: classify_image_Hung)
next
  case (Cons x pre)
  then have "classify env (classNames s) x \<noteq> None" by simp
  then obtain s1 where a: "classify_image env i x s = Done s1"
    using classify_image_Done_iff by blast
  from classify_image_Done [OF a] obtain l c
    where cn: "classNames s1 = classNames s" and bi: "batchImages s1 = batchImages s"
      and ib: "isBatchProcessing s1 = isBatchProcessing s"
      and ci: "classifiedImages s1 = classifiedImages s"
      and pr: "processedImages s1 = processedImages s @
          [\<lparr>file' = x, classification = l, timestamp = date_now env (clock_reads s),
            confidence = c\<rparr>]"
    by blast
  from Cons.prems have "list_all (\<lambda>x. classify env (classNames s1) x \<noteq> None) pre"
    by (simp add: cn)
  from Cons.IH [OF this Cons.prems(2), of "i + 1"] obtain s'
    where "batch_loop env (i + 1) (pre @ img # post) s1 = Hung s'"
      and "isBatchProcessing s' = isBatchProcessing s1"
      and "batchProgress s' = (i + 1 + length pre + 1, length (batchImages s1))"
      and "length (processedImages s') = length (processedImages s1) + length pre"
      and "classifiedImages s' = classifiedImages s1" and "batchImages s' = batchImages s1"
    by blast
  then show ?case using a by (simp add: cn bi ib ci pr)
qed

section \<open>The statements around the loop\<close>

lemma archive_and_record_Done:
  assumes "archive_and_record env s = Done s'"
  shows "import_jszip env \<and>
    generateAsync env (fst (build_zip env (s\<lparr>clock_reads := clock_reads s + 1\<rparr>))) \<and>
    classifiedImages s' = classifiedImages s @ processedImages s \<and>
    batchImages s' = [] \<and>
    processedImages s' = processedImages s \<and>
    normalImages s' = normalImages s \<and> theftImages s' = theftImages s \<and>
    unidentifiedImages s' = unidentifiedImages s \<and>
    classNames s' = classNames s \<and>
    trace s' = trace s @
      [Download (folderName env s @ ''.zip'')
         (fst (build_zip env (s\<lparr>clock_reads := clock_reads s + 1\<rparr>))),
       Alert (AlertComplete (length (normalImages s)) (length (theftImages s))
         (length (unidentifiedImages s)) (folderName env s @ ''.zip''))]"
  using assms
  by (auto simp: archive_and_record_def Let_def case_prod_beta split: if_splits)

lemma archive_and_record_Thrown:
  assumes "archive_and_record env s = Thrown s'"
  shows "(if import_jszip env
          then generateAsync env (fst (build_zip env (s\<lparr>clock_reads := clock_reads s + 1\<rparr>)))
          else False) = False \<and>
    classifiedImages s' = classifiedImages s \<and>
    batchImages s' = batchImages s \<and>
    processedImages s' = processedImages s \<and>
    trace s' = trace s"
  using assms
  by (auto simp: archive_and_record_def Let_def case_prod_beta split: if_splits)

lemma archive_and_record_cases:
  "archive_and_record env s =
     (if import_jszip env \<and>
         generateAsync env (fst (build_zip env (s\<lparr>clock_reads := clock_reads s + 1\<rparr>)))
      then Done (state_of_completion (archive_and_record env s))
      else Thrown (state_of_completion (archive_and_record env s)))"
  by (simp add: archive_and_record_def Let_def case_prod_beta)

lemma start_fields [simp]:
  "model_ready (start s) = model_ready s"
  "classNames (start s) = classNames s"
  "classifiedImages (start s) = classifiedImages s"
  "batchImages (start s) = batchImages s"
  "processedImages (start s) = []"
  "normalImages (start s) = []"
  "theftImages (start s) = []"
  "unidentifiedImages (start s) = []"
  "clock_reads (start s) = 0"
  "trace (start s) = [SetBatchProgress 0 (length (batchImages s))]"
  "isBatchProcessing (start s) = True"
  by (simp_all add: start_def)

lemma cleanup_fields [simp]:
  "model_ready (cleanup s) = model_ready s"
  "classNames (cleanup s) = classNames s"
  "classifiedImages (cleanup s) = classifiedImages s"
  "batchImages (cleanup s) = batchImages s"
  "processedImages (cleanup s) = processedImages s"
  "normalImages (cleanup s) = normalImages s"
  "theftImages (cleanup s) = theftImages s"
  "unidentifiedImages (cleanup s) = unidentifiedImages s"
  "trace (cleanup s) = trace s @ [SetBatchProgress 0 0]"
  "isBatchProcessing (cleanup s) = False"
  "batchProgress (cleanup s) = (0, 0)"
  by (simp_all add: cleanup_def)

lemma processBatchImages_Completed:
  assumes "processBatchImages env s = Completed s'"
  obtains s2 s3 where "model_ready s" "batchImages s \<noteq> []"
    "batch_loop env 0 (batchImages s) (start s) = Done s2"
    "archive_and_record env s2 = Done s3" "s' = cleanup s3"
  using assms
  by (auto simp: processBatchImages_def try_block_def split: if_splits completion.splits)

lemma processBatchImages_completes:
  assumes "model_ready s" "batchImages s \<noteq> []"
    "list_all (\<lambda>x. classify env (classNames s) x \<noteq> None) (batchImages s)"
    "import_jszip env" "\<And>z. generateAsync env z"
  shows "is_Completed (processBatchImages env s)"
proof -
  from assms(3) have "list_all (\<lambda>x. classify env (classNames (start s)) x \<noteq> None) (batchImages s)"
    by simp
  from batch_loop_completes [OF this] obtain s2
    where l: "batch_loop env 0 (batchImages s) (start s) = Done s2" by blast
  have "archive_and_record env s2 = Done (state_of_completion (archive_and_record env s2))"
    using assms(4,5) by (subst archive_and_record_cases) simp
  then obtain s3 where "archive_and_record env s2 = Done s3" ..
  with l assms(1,2) show ?thesis
    by (simp add: processBatchImages_def try_block_def)
qed

section \<open>The archive\<close>

lemma add_images_fresh:
  assumes "\<forall>e\<in>set z. \<forall>j\<ge>index. \<forall>t. fst e \<noteq> (cat @ ''/'') @ file_name cat t j"
  shows "add_images env (cat @ ''/'') cat index images (z, reads) =
           (z @ image_entries env cat index reads images, reads + length images)"
  using assms
proof (induction images arbitrary: z index reads)
  case Nil
  then show ?case by simp
next
  case (Cons img images)
  let ?k = "(cat @ ''/'') @ file_name cat (date_now env reads) index"
  have "?k \<notin> fst ` set z" using Cons.prems by force
  then have u: "zip_file (cat @ ''/'') (file_name cat (date_now env reads) index) img z =
      z @ [(?k, FileData img)]"
    by (simp add: zip_file_def update_fresh)
  have "\<forall>e\<in>set (z @ [(?k, FileData img)]). \<forall>j\<ge>index + 1. \<forall>t.
      fst e \<noteq> (cat @ ''/'') @ file_name cat t j"
  proof (intro ballI allI impI)
    fix e j t
    assume e: "e \<in> set (z @ [(?k, FileData img)])" and j: "index + 1 \<le> j"
    show "fst e \<noteq> (cat @ ''/'') @ file_name cat t j"
    proof (cases "e \<in> set z")
      case True
      with Cons.prems j show ?thesis by simp
    next
      case False
      with e have "fst e = ?k" by simp
      moreover have "file_name cat (date_now env reads) index \<noteq> file_name cat t j"
        using file_name_inj [of cat "date_now env reads" index t j] j by auto
      ultimately show ?thesis by simp
    qed
  qed
  from Cons.IH [OF this] show ?case by (simp add: u)
qed

lemma image_entries_keys:
  "e \<in> set (image_entries env cat index reads images) \<Longrightarrow>
   \<exists>t j. fst e = (cat @ ''/'') @ file_name cat t j \<and> is_file_entry e \<and> snd e \<in> FileData ` set images"
proof (induction images arbitrary: index reads)
  case Nil
  then show ?case by simp
next
  case (Cons img images)
  show ?case
  proof (cases "e \<in> set (image_entries env cat (index + 1) (reads + 1) images)")
    case True
    from Cons.IH [OF this] show ?thesis by auto
  next
    case False
    with Cons.prems
    have "e = (cat @ ''/'' @ file_name cat (date_now env reads) index, FileData img)" by simp
    then have "fst e = (cat @ ''/'') @ file_name cat (date_now env reads) index"
      and "is_file_entry e" and "snd e \<in> FileData ` set (img # images)" by simp_all
    then show ?thesis by blast
  qed
qed

lemma folder_entries_prefix:
  "e \<in> set (folder_entries env cat reads images) \<Longrightarrow> prefix (cat @ ''/'') (fst e)"
  by (auto simp: folder_entries_def dest!: image_entries_keys split: if_splits)

lemma add_folder_fresh:
  assumes "\<forall>e\<in>set z. \<not> prefix (cat @ ''/'') (fst e)"
  shows "add_folder env cat images (z, reads) =
           (z @ folder_entries env cat reads images, reads + length images)"
proof (cases "images = []")
  case True
  then show ?thesis by (simp add: add_folder_def folder_entries_def)
next
  case False
  have "cat @ ''/'' \<notin> fst ` set z" using assms by force
  then have m: "map_of z (cat @ ''/'') = None" by (simp add: map_of_eq_None_iff)
  have "\<forall>e\<in>set (z @ [(cat @ ''/'', Folder)]). \<forall>j\<ge>0. \<forall>t.
      fst e \<noteq> (cat @ ''/'') @ file_name cat t j"
  proof (intro ballI allI impI)
    fix e j t
    assume e: "e \<in> set (z @ [(cat @ ''/'', Folder)])"
    show "fst e \<noteq> (cat @ ''/'') @ file_name cat t j"
    proof (cases "e \<in> set z")
      case True
      with assms have "\<not> prefix (cat @ ''/'') (fst e)" by simp
      then show ?thesis by (metis prefixI)
    next
      case False
      with e have "fst e = cat @ ''/''" by simp
      then show ?thesis using file_name_nonempty [of cat t j] by simp
    qed
  qed
  from add_images_fresh [OF this, of env images reads] False m show ?thesis
    by (simp add: add_folder_def zip_folder_def folder_entries_def Let_def)
qed

lemma category_prefixes:
  "prefix ''normal/'' k \<Longrightarrow> \<not> prefix ''theft/'' k"
  "prefix ''normal/'' k \<Longrightarrow> \<not> prefix ''unidentified/'' k"
  "prefix ''theft/'' k \<Longrightarrow> \<not> prefix ''unidentified/'' k"
  "prefix ''theft/'' k \<Longrightarrow> \<not> prefix ''normal/'' k"
  "prefix ''unidentified/'' k \<Longrightarrow> \<not> prefix ''normal/'' k"
  "prefix ''unidentified/'' k \<Longrightarrow> \<not> prefix ''theft/'' k"
  by (auto simp: prefix_def)

lemma build_zip_entries:
  "build_zip env s =
     (folder_entries env ''normal'' (clock_reads s) (normalImages s) @
      folder_entries env ''theft'' (clock_reads s + length (normalImages s)) (theftImages s) @
      folder_entries env ''unidentified''
        (clock_reads s + length (normalImages s) + length (theftImages s)) (unidentifiedImages s),
      clock_reads s + length (normalImages s) + length (theftImages s) +
        length (unidentifiedImages s))"
proof -
  let ?n = "folder_entries env ''normal'' (clock_reads s) (normalImages s)"
  let ?t = "folder_entries env ''theft'' (clock_reads s + length (normalImages s)) (theftImages s)"
  have a: "add_folder env ''normal'' (normalImages s) ([], clock_reads s) =
      (?n, clock_reads s + length (normalImages s))"
    using add_folder_fresh [of "[]" "''normal''" env "normalImages s" "clock_reads s"] by simp
  have "\<forall>e\<in>set ?n. \<not> prefix (''theft'' @ ''/'') (fst e)"
    using folder_entries_prefix [of _ env "''normal''"] category_prefixes(1) by fastforce
  from add_folder_fresh [OF this, of env "theftImages s" "clock_reads s + length (normalImages s)"]
  have b: "add_folder env ''theft'' (theftImages s) (?n, clock_reads s + length (normalImages s)) =
      (?n @ ?t, clock_reads s + length (normalImages s) + length (theftImages s))"
    by simp
  have "\<forall>e\<in>set (?n @ ?t). \<not> prefix (''unidentified'' @ ''/'') (fst e)"
    using folder_entries_prefix [of _ env "''normal''"] folder_entries_prefix [of _ env "''theft''"]
      category_prefixes(2,3) by fastforce
  from add_folder_fresh [OF this, of env "unidentifiedImages s"
      "clock_reads s + length (normalImages s) + length (theftImages s)"]
  have c: "add_folder env ''unidentified'' (unidentifiedImages s)
      (?n @ ?t, clock_reads s + length (normalImages s) + length (theftImages s)) =
      ((?n @ ?t) @ folder_entries env ''unidentified''
        (clock_reads s + length (normalImages s) + length (theftImages s)) (unidentifiedImages s),
       clock_reads s + length (normalImages s) + length (theftImages s) +
        length (unidentifiedImages s))"
    by simp
  show ?thesis by (simp add: build_zip_def a b c)
qed

lemma image_entries_index:
  "e \<in> set (image_entries env cat index reads images) \<Longrightarrow>
   \<exists>t j. index \<le> j \<and> fst e = (cat @ ''/'') @ file_name cat t j"
proof (induction images arbitrary: index reads)
  case Nil
  then show ?case by simp
next
  case (Cons img images)
  show ?case
  proof (cases "e \<in> set (image_entries env cat (index + 1) (reads + 1) images)")
    case True
    from Cons.IH [OF this] obtain t j
      where "index + 1 \<le> j" and "fst e = (cat @ ''/'') @ file_name cat t j" by blast
    then have "index \<le> j \<and> fst e = (cat @ ''/'') @ file_name cat t j" by simp
    then show ?thesis by blast
  next
    case False
    with Cons.prems
    have "fst e = (cat @ ''/'') @ file_name cat (date_now env reads) index" by auto
    then show ?thesis by blast
  qed
qed

lemma image_entries_distinct: "distinct (map fst (image_entries env cat index reads images))"
proof (induction images arbitrary: index reads)
  case Nil
  then show ?case by simp
next
  case (Cons img images)
  have "cat @ ''/'' @ file_name cat (date_now env reads) index \<notin>
      fst ` set (image_entries env cat (index + 1) (reads + 1) images)"
  proof
    assume "cat @ ''/'' @ file_name cat (date_now env reads) index \<in>
      fst ` set (image_entries env cat (index + 1) (reads + 1) images)"
    then obtain e where e: "e \<in> set (image_entries env cat (index + 1) (reads + 1) images)"
      and k: "fst e = cat @ ''/'' @ file_name cat (date_now env reads) index" by auto
    from image_entries_index [OF e] obtain t j where j: "index + 1 \<le> j"
      and "fst e = (cat @ ''/'') @ file_name cat t j" by blast
    with k have "file_name cat (date_now env reads) index = file_name cat t j" by simp
    from file_name_inj [OF this] j show False by simp
  qed
  with Cons.IH show ?case by simp
qed

lemma image_entries_length [simp]:
  "length (image_entries env cat index reads images) = length images"
  by (induction images arbitrary: index reads) simp_all

lemma image_entries_data [simp]:
  "map snd (image_entries env cat index reads images) = map FileData images"
  by (induction images arbitrary: index reads) simp_all

lemma image_entries_files [simp]:
  "filter is_file_entry (image_entries env cat index reads images) =
     image_entries env cat index reads images"
  by (induction images arbitrary: index reads) simp_all

lemma image_entries_prefix:
  "e \<in> set (image_entries env cat index reads images) \<Longrightarrow> prefix (cat @ ''/'') (fst e)"
  by (auto dest!: image_entries_index)

lemma image_entries_suffix:
  "list_all (\<lambda>e. suffix ''.jpg'' (fst e)) (image_entries env cat index reads images)"
  by (induction images arbitrary: index reads)
    (simp_all add: file_name_def suffix_def)

lemma folder_entries_distinct: "distinct (map fst (folder_entries env cat reads images))"
proof -
  have "cat @ ''/'' \<notin> fst ` set (image_entries env cat 0 reads images)"
  proof
    assume "cat @ ''/'' \<in> fst ` set (image_entries env cat 0 reads images)"
    then obtain e where e: "e \<in> set (image_entries env cat 0 reads images)"
      and k: "fst e = cat @ ''/''" by auto
    from image_entries_index [OF e] obtain t j
      where "fst e = (cat @ ''/'') @ file_name cat t j" by blast
    with k show False using file_name_nonempty [of cat t j] by simp
  qed
  then show ?thesis by (simp add: folder_entries_def image_entries_distinct)
qed

lemma folder_entries_files [simp]:
  "filter is_file_entry (folder_entries env cat reads images) =
     image_entries env cat 0 reads images"
  by (simp add: folder_entries_def)

lemma folder_entries_files_in:
  "filter (\<lambda>e. is_file_entry e \<and> prefix (cat @ ''/'') (fst e))
     (folder_entries env cat reads images) = image_entries env cat 0 reads images"
proof -
  have "filter (\<lambda>e. is_file_entry e \<and> prefix (cat @ ''/'') (fst e))
     (image_entries env cat 0 reads images) = image_entries env cat 0 reads images"
    by (rule filter_True) (auto dest: image_entries_prefix image_entries_keys)
  then show ?thesis by (simp add: folder_entries_def)
qed

lemma folder_entries_files_elsewhere:
  assumes "\<And>k. prefix (cat' @ ''/'') k \<Longrightarrow> \<not> prefix (cat @ ''/'') k"
  shows "filter (\<lambda>e. is_file_entry e \<and> prefix (cat @ ''/'') (fst e))
     (folder_entries env cat' reads images) = []"
  using assms folder_entries_prefix [of _ env cat' reads images]
  by (auto simp: filter_empty_conv)

lemma folder_entries_folder:
  "(cat @ ''/'', Folder) \<in> set (folder_entries env cat reads images) \<longleftrightarrow> images \<noteq> []"
  by (auto simp: folder_entries_def dest: image_entries_keys)

lemma folder_entries_folder_elsewhere:
  assumes "\<And>k. prefix (cat' @ ''/'') k \<Longrightarrow> \<not> prefix (cat @ ''/'') k"
  shows "(cat @ ''/'', Folder) \<notin> set (folder_entries env cat' reads images)"
proof
  assume "(cat @ ''/'', Folder) \<in> set (folder_entries env cat' reads images)"
  from folder_entries_prefix [OF this] have "prefix (cat' @ ''/'') (cat @ ''/'')" by simp
  from assms [OF this] show False by simp
qed

lemma folder_entries_folders:
  "set (filter (\<lambda>e. \<not> is_file_entry e) (folder_entries env cat reads images)) \<subseteq>
     {(cat @ ''/'', Folder)}"
  by (auto simp: folder_entries_def dest: image_entries_keys)

lemma build_zip_distinct: "distinct (map fst (fst (build_zip env s)))"
proof -
  let ?n = "folder_entries env ''normal'' (clock_reads s) (normalImages s)"
  let ?t = "folder_entries env ''theft'' (clock_reads s + length (normalImages s)) (theftImages s)"
  let ?u = "folder_entries env ''unidentified''
        (clock_reads s + length (normalImages s) + length (theftImages s)) (unidentifiedImages s)"
  have n: "\<And>e. e \<in> set ?n \<Longrightarrow> prefix ''normal/'' (fst e)"
    using folder_entries_prefix [of _ env "''normal''"] by simp
  have t: "\<And>e. e \<in> set ?t \<Longrightarrow> prefix ''theft/'' (fst e)"
    using folder_entries_prefix [of _ env "''theft''"] by simp
  have u: "\<And>e. e \<in> set ?u \<Longrightarrow> prefix ''unidentified/'' (fst e)"
    using folder_entries_prefix [of _ env "''unidentified''"] by simp
  have "fst ` set ?n \<inter> fst ` set ?t = {}" using n t category_prefixes(1) by fastforce
  moreover have "fst ` set ?n \<inter> fst ` set ?u = {}" using n u category_prefixes(2) by fastforce
  moreover have "fst ` set ?t \<inter> fst ` set ?u = {}" using t u category_prefixes(3) by fastforce
  ultimately have "distinct (map fst (?n @ ?t @ ?u))"
    by (simp add: folder_entries_distinct Int_Un_distrib)
  then show ?thesis by (simp add: build_zip_entries)
qed

lemma build_zip_files:
  "filter is_file_entry (fst (build_zip env s)) =
     image_entries env ''normal'' 0 (clock_reads s) (normalImages s) @
     image_entries env ''theft'' 0 (clock_reads s + length (normalImages s)) (theftImages s) @
     image_entries env ''unidentified'' 0
       (clock_reads s + length (normalImages s) + length (theftImages s)) (unidentifiedImages s)"
  by (simp add: build_zip_entries)

lemma build_zip_files_in:
  "files_in ''normal'' (fst (build_zip env s)) =
     image_entries env ''normal'' 0 (clock_reads s) (normalImages s)"
  "files_in ''theft'' (fst (build_zip env s)) =
     image_entries env ''theft'' 0 (clock_reads s + length (normalImages s)) (theftImages s)"
  "files_in ''unidentified'' (fst (build_zip env s)) =
     image_entries env ''unidentified'' 0
       (clock_reads s + length (normalImages s) + length (theftImages s)) (unidentifiedImages s)"
proof -
  note same = folder_entries_files_in [of "''normal''", simplified]
    folder_entries_files_in [of "''theft''", simplified]
    folder_entries_files_in [of "''unidentified''", simplified]
  note other = 
    folder_entries_files_elsewhere [of "''theft''" "''normal''", simplified, OF category_prefixes(4)]
    folder_entries_files_elsewhere [of "''unidentified''" "''normal''", simplified, OF category_prefixes(5)]
    folder_entries_files_elsewhere [of "''normal''" "''theft''", simplified, OF category_prefixes(1)]
    folder_entries_files_elsewhere [of "''unidentified''" "''theft''", simplified, OF category_prefixes(6)]
    folder_entries_files_elsewhere [of "''normal''" "''unidentified''", simplified, OF category_prefixes(2)]
    folder_entries_files_elsewhere [of "''theft''" "''unidentified''", simplified, OF category_prefixes(3)]
  show "files_in ''normal'' (fst (build_zip env s)) =
     image_entries env ''normal'' 0 (clock_reads s) (normalImages s)"
    by (simp add: files_in_def build_zip_entries same other)
  show "files_in ''theft'' (fst (build_zip env s)) =
     image_entries env ''theft'' 0 (clock_reads s + length (normalImages s)) (theftImages s)"
    by (simp add: files_in_def build_zip_entries same other)
  show "files_in ''unidentified'' (fst (build_zip env s)) =
     image_entries env ''unidentified'' 0
       (clock_reads s + length (normalImages s) + length (theftImages s)) (unidentifiedImages s)"
    by (simp add: files_in_def build_zip_entries same other)
qed

lemma build_zip_has_folder:
  "has_folder ''normal'' (fst (build_zip env s)) \<longleftrightarrow> normalImages s \<noteq> []"
  "has_folder ''theft'' (fst (build_zip env s)) \<longleftrightarrow> theftImages s \<noteq> []"
  "has_folder ''unidentified'' (fst (build_zip env s)) \<longleftrightarrow> unidentifiedImages s \<noteq> []"
proof -
  note same = folder_entries_folder [of "''normal''", simplified]
    folder_entries_folder [of "''theft''", simplified]
    folder_entries_folder [of "''unidentified''", simplified]
  note other = 
    folder_entries_folder_elsewhere [of "''theft''" "''normal''", simplified, OF category_prefixes(4)]
    folder_entries_folder_elsewhere [of "''unidentified''" "''normal''", simplified, OF category_prefixes(5)]
    folder_entries_folder_elsewhere [of "''normal''" "''theft''", simplified, OF category_prefixes(1)]
    folder_entries_folder_elsewhere [of "''unidentified''" "''theft''", simplified, OF category_prefixes(6)]
    folder_entries_folder_elsewhere [of "''normal''" "''unidentified''", simplified, OF category_prefixes(2)]
    folder_entries_folder_elsewhere [of "''theft''" "''unidentified''", simplified, OF category_prefixes(3)]
  show "has_folder ''normal'' (fst (build_zip env s)) \<longleftrightarrow> normalImages s \<noteq> []"
    by (simp add: has_folder_def build_zip_entries same other)
  show "has_folder ''theft'' (fst (build_zip env s)) \<longleftrightarrow> theftImages s \<noteq> []"
    by (simp add: has_folder_def build_zip_entries same other)
  show "has_folder ''unidentified'' (fst (build_zip env s)) \<longleftrightarrow> unidentifiedImages s \<noteq> []"
    by (simp add: has_folder_def build_zip_entries same other)
qed

lemma build_zip_folders:
  "set (filter (\<lambda>e. \<not> is_file_entry e) (fst (build_zip env s))) \<subseteq>
     {(''normal/'', Folder), (''theft/'', Folder), (''unidentified/'', Folder)}"
proof -
  have f: "e = (cat @ ''/'', Folder)"
    if "e \<in> set (folder_entries env cat reads images)" and "\<not> is_file_entry e"
    for e cat reads images
    using that folder_entries_folders [of env cat reads images] by auto
  show ?thesis
    using f [of _ "''normal''"] f [of _ "''theft''"] f [of _ "''unidentified''"]
    by (fastforce simp: build_zip_entries)
qed

lemma routed_partition:
  "list_all (\<lambda>x. classify env labels x \<noteq> None) xs \<Longrightarrow>
   length (filter (\<lambda>x. routed env labels x = Some Normal) xs) +
   length (filter (\<lambda>x. routed env labels x = Some Theft) xs) +
   length (filter (\<lambda>x. routed env labels x = Some Unidentified) xs) = length xs"
proof (induction xs)
  case Nil
  then show ?case by simp
next
  case (Cons x xs)
  then obtain l c where "classify env labels x = Some (l, c)" by auto
  then have "routed env labels x = Some (route c l)" by (simp add: routed_def)
  with Cons show ?case by (cases "route c l") simp_all
qed

lemma corresponds_classified:
  "list_all2 (corresponds env labels) xs ps \<Longrightarrow> list_all (\<lambda>x. classify env labels x \<noteq> None) xs"
  by (induction xs ps rule: list_all2_induct) (simp_all add: corresponds_def)

lemma processBatchImages_archive:
  assumes "processBatchImages env s = Completed s'"
  shows "\<exists>s2. downloads (trace s') = [fst (build_zip env s2)] \<and>
    normalImages s2 = filter (\<lambda>x. routed env (classNames s) x = Some Normal) (batchImages s) \<and>
    theftImages s2 = filter (\<lambda>x. routed env (classNames s) x = Some Theft) (batchImages s) \<and>
    unidentifiedImages s2 =
      filter (\<lambda>x. routed env (classNames s) x = Some Unidentified) (batchImages s) \<and>
    list_all (\<lambda>x. classify env (classNames s) x \<noteq> None) (batchImages s)"
proof -
  from assms obtain s2 s3
    where l: "batch_loop env 0 (batchImages s) (start s) = Done s2"
      and a: "archive_and_record env s2 = Done s3" and s': "s' = cleanup s3"
    by (rule processBatchImages_Completed)
  from batch_loop_trace [OF l]
  have d2: "downloads (trace s2) = []"
    by (simp add: downloads_append downloads_concat_item_events)
  from archive_and_record_Done [OF a]
  have t3: "trace s3 = trace s2 @
      [Download (folderName env s2 @ ''.zip'')
         (fst (build_zip env (s2\<lparr>clock_reads := clock_reads s2 + 1\<rparr>))),
       Alert (AlertComplete (length (normalImages s2)) (length (theftImages s2))
         (length (unidentifiedImages s2)) (folderName env s2 @ ''.zip''))]"
    by blast
  have d: "downloads (trace s') = [fst (build_zip env (s2\<lparr>clock_reads := clock_reads s2 + 1\<rparr>))]"
    by (simp add: s' t3 d2 downloads_append)
  from batch_loop_results [OF l] have c: "list_all (\<lambda>x. classify env (classNames s) x \<noteq> None) (batchImages s)"
    by (auto dest: corresponds_classified)
  from batch_loop_arrays [OF l] d c show ?thesis
    by (intro exI [of _ "s2\<lparr>clock_reads := clock_reads s2 + 1\<rparr>"]) simp
qed

lemma routed_cover:
  "list_all (\<lambda>x. classify env labels x \<noteq> None) xs \<Longrightarrow>
   set (filter (\<lambda>x. routed env labels x = Some Normal) xs) \<union>
   set (filter (\<lambda>x. routed env labels x = Some Theft) xs) \<union>
   set (filter (\<lambda>x. routed env labels x = Some Unidentified) xs) = set xs"
proof (induction xs)
  case Nil
  then show ?case by simp
next
  case (Cons x xs)
  then obtain l c where "classify env labels x = Some (l, c)" by auto
  then have "routed env labels x = Some (route c l)" by (simp add: routed_def)
  with Cons show ?case by (cases "route c l") auto
qed

lemma build_zip_suffix:
  "list_all (\<lambda>e. suffix ''.jpg'' (fst e)) (filter is_file_entry (fst (build_zip env s)))"
  by (simp add: build_zip_files image_entries_suffix)

lemma build_zip_data:
  "map snd (filter is_file_entry (fst (build_zip env s))) =
     map FileData (normalImages s @ theftImages s @ unidentifiedImages s)"
  by (simp add: build_zip_files)

lemma archive_and_record_Thrown_ready:
  "archive_and_record env s = Thrown s' \<Longrightarrow> model_ready s' = model_ready s"
  by (auto simp: archive_and_record_def Let_def case_prod_beta split: if_splits)

lemma processBatchImages_starts:
  "model_ready s \<Longrightarrow> batchImages s \<noteq> [] \<Longrightarrow> \<not> is_NotStarted (processBatchImages env s)"
  by (simp add: processBatchImages_def split: completion.splits)

lemma processBatchImages_arrays:
  assumes "processBatchImages env s = Completed s'"
  shows "normalImages s' =
      filter (\<lambda>x. routed env (classNames s) x = Some Normal) (batchImages s) \<and>
    theftImages s' =
      filter (\<lambda>x. routed env (classNames s) x = Some Theft) (batchImages s) \<and>
    unidentifiedImages s' =
      filter (\<lambda>x. routed env (classNames s) x = Some Unidentified) (batchImages s)"
proof -
  from assms obtain s2 s3
    where l: "batch_loop env 0 (batchImages s) (start s) = Done s2"
      and a: "archive_and_record env s2 = Done s3" and s': "s' = cleanup s3"
    by (rule processBatchImages_Completed)
  from archive_and_record_Done [OF a]
  have "normalImages s3 = normalImages s2" "theftImages s3 = theftImages s2"
    "unidentifiedImages s3 = unidentifiedImages s2" by simp_all
  with batch_loop_arrays [OF l] show ?thesis by (simp add: s')
qed

section \<open>The routing policy\<close>

text \<open>
  C1. The destination of an item is a function of its confidence and its label alone:
  a confidence of at least 1.0 with a label that is "normal" up to case goes to the normal
  category, a confidence of at least 1.0 with any other label goes to the theft category,
  and every confidence strictly below 1.0 goes to unidentified whatever the label. This
  is so for the value of \<open>route\<close>, for the loop body, which appends the image to the
  array of that category and to no other, with the label and the confidence it records
  for the image, and for a whole run that completes, whose three arrays are the inputs
  of each category in input order.
\<close>

theorem route_policy:
  "(js_ge c (Fin 1) \<and> toLowerCase l = ''normal'' \<longrightarrow> route c l = Normal) \<and>
   (js_ge c (Fin 1) \<and> toLowerCase l \<noteq> ''normal'' \<longrightarrow> route c l = Theft) \<and>
   (js_lt c (Fin 1) \<longrightarrow> route c l = Unidentified) \<and>
   (classify_image env i img s = Done s' \<longrightarrow>
      (\<exists>label conf. classify env (classNames s) img = Some (label, conf) \<and>
         processedImages s' = processedImages s @
           [\<lparr>file' = img, classification = label, timestamp = date_now env (clock_reads s),
             confidence = conf\<rparr>] \<and>
         (js_ge conf (Fin 1) \<and> toLowerCase label = ''normal'' \<longrightarrow>
            normalImages s' = normalImages s @ [img] \<and> theftImages s' = theftImages s \<and>
            unidentifiedImages s' = unidentifiedImages s) \<and>
         (js_ge conf (Fin 1) \<and> toLowerCase label \<noteq> ''normal'' \<longrightarrow>
            normalImages s' = normalImages s \<and> theftImages s' = theftImages s @ [img] \<and>
            unidentifiedImages s' = unidentifiedImages s) \<and>
         (js_lt conf (Fin 1) \<longrightarrow>
            normalImages s' = normalImages s \<and> theftImages s' = theftImages s \<and>
            unidentifiedImages s' = unidentifiedImages s @ [img]) \<and>
         (\<not> js_ge conf (Fin 1) \<longrightarrow>
            normalImages s' = normalImages s \<and> theftImages s' = theftImages s \<and>
            unidentifiedImages s' = unidentifiedImages s @ [img]))) \<and>
   (processBatchImages env s = Completed s' \<longrightarrow>
      normalImages s' =
        filter (\<lambda>x. routed env (classNames s) x = Some Normal) (batchImages s) \<and>
      theftImages s' =
        filter (\<lambda>x. routed env (classNames s) x = Some Theft) (batchImages s) \<and>
      unidentifiedImages s' =
        filter (\<lambda>x. routed env (classNames s) x = Some Unidentified) (batchImages s))"
proof (intro conjI impI)
  show "route c l = Normal" if "js_ge c (Fin 1) \<and> toLowerCase l = ''normal''"
    using that by (simp add: route_def)
  show "route c l = Theft" if "js_ge c (Fin 1) \<and> toLowerCase l \<noteq> ''normal''"
    using that by (simp add: route_def)
  show "route c l = Unidentified" if "js_lt c (Fin 1)"
    using that js_lt_not_ge [of c "Fin 1"] by (simp add: route_def)
next
  assume d: "classify_image env i img s = Done s'"
  from classify_image_Done [OF d] obtain label conf
    where cl: "classify env (classNames s) img = Some (label, conf)"
      and p: "processedImages s' = processedImages s @
        [\<lparr>file' = img, classification = label, timestamp = date_now env (clock_reads s),
          confidence = conf\<rparr>]"
      and n: "normalImages s' = normalImages s @ (if route conf label = Normal then [img] else [])"
      and t: "theftImages s' = theftImages s @ (if route conf label = Theft then [img] else [])"
      and u: "unidentifiedImages s' =
         unidentifiedImages s @ (if route conf label = Unidentified then [img] else [])"
    by blast
  have "js_lt conf (Fin 1) \<longrightarrow> \<not> js_ge conf (Fin 1)" using js_lt_not_ge by blast
  then have "classify env (classNames s) img = Some (label, conf) \<and>
         processedImages s' = processedImages s @
           [\<lparr>file' = img, classification = label, timestamp = date_now env (clock_reads s),
             confidence = conf\<rparr>] \<and>
         (js_ge conf (Fin 1) \<and> toLowerCase label = ''normal'' \<longrightarrow>
            normalImages s' = normalImages s @ [img] \<and> theftImages s' = theftImages s \<and>
            unidentifiedImages s' = unidentifiedImages s) \<and>
         (js_ge conf (Fin 1) \<and> toLowerCase label \<noteq> ''normal'' \<longrightarrow>
            normalImages s' = normalImages s \<and> theftImages s' = theftImages s @ [img] \<and>
            unidentifiedImages s' = unidentifiedImages s) \<and>
         (js_lt conf (Fin 1) \<longrightarrow>
            normalImages s' = normalImages s \<and> theftImages s' = theftImages s \<and>
            unidentifiedImages s' = unidentifiedImages s @ [img]) \<and>
         (\<not> js_ge conf (Fin 1) \<longrightarrow>
            normalImages s' = normalImages s \<and> theftImages s' = theftImages s \<and>
            unidentifiedImages s' = unidentifiedImages s @ [img])"
    by (simp add: cl p n t u route_def)
  then show "\<exists>label conf. classify env (classNames s) img = Some (label, conf) \<and>
         processedImages s' = processedImages s @
           [\<lparr>file' = img, classification = label, timestamp = date_now env (clock_reads s),
             confidence = conf\<rparr>] \<and>
         (js_ge conf (Fin 1) \<and> toLowerCase label = ''normal'' \<longrightarrow>
            normalImages s' = normalImages s @ [img] \<and> theftImages s' = theftImages s \<and>
            unidentifiedImages s' = unidentifiedImages s) \<and>
         (js_ge conf (Fin 1) \<and> toLowerCase label \<noteq> ''normal'' \<longrightarrow>
            normalImages s' = normalImages s \<and> theftImages s' = theftImages s @ [img] \<and>
            unidentifiedImages s' = unidentifiedImages s) \<and>
         (js_lt conf (Fin 1) \<longrightarrow>
            normalImages s' = normalImages s \<and> theftImages s' = theftImages s \<and>
            unidentifiedImages s' = unidentifiedImages s @ [img]) \<and>
         (\<not> js_ge conf (Fin 1) \<longrightarrow>
            normalImages s' = normalImages s \<and> theftImages s' = theftImages s \<and>
            unidentifiedImages s' = unidentifiedImages s @ [img])"
    by blast
next
  assume c: "processBatchImages env s = Completed s'"
  from processBatchImages_arrays [OF c]
  show "normalImages s' =
        filter (\<lambda>x. routed env (classNames s) x = Some Normal) (batchImages s)"
    and "theftImages s' =
        filter (\<lambda>x. routed env (classNames s) x = Some Theft) (batchImages s)"
    and "unidentifiedImages s' =
        filter (\<lambda>x. routed env (classNames s) x = Some Unidentified) (batchImages s)"
    by blast+
qed

theorem route_policy_witness:
  "route (Fin 1) ''NORMAL'' = Normal \<and> route (Fin 1) ''normal'' = Normal \<and>
   route (Fin 1) ''theft'' = Theft \<and> route (Fin 0.999999) ''normal'' = Unidentified \<and>
   normalImages (state_of_completion (classify_image sample_env 0 sample_a
     (start (sample_state [sample_a])))) = [sample_a] \<and>
   theftImages (state_of_completion (classify_image sample_env 0 sample_b
     (start (sample_state [sample_b])))) = [sample_b] \<and>
   unidentifiedImages (state_of_completion (classify_image sample_env 0 sample_c
     (start (sample_state [sample_c])))) = [sample_c] \<and>
   normalImages (state_of (processBatchImages sample_env
     (sample_state [sample_a, sample_b, sample_c]))) = [sample_a] \<and>
   theftImages (state_of (processBatchImages sample_env
     (sample_state [sample_a, sample_b, sample_c]))) = [sample_b] \<and>
   unidentifiedImages (state_of (processBatchImages sample_env
     (sample_state [sample_a, sample_b, sample_c]))) = [sample_c]"
proof -
  have ge: "js_ge (Fin 1) (Fin 1)" by simp
  have lt: "js_lt (Fin 0.999999) (Fin 1)" "js_lt (Fin 0.8) (Fin 1)" by (simp_all add: js_lt_def)
  have up: "toLowerCase ''NORMAL'' = ''normal''"
    by (simp add: toLowerCase_def lower_char_def char_of_eq_iff)
  have lo: "toLowerCase ''normal'' = ''normal''"
    by (simp add: toLowerCase_def lower_char_def)
  have th: "toLowerCase ''theft'' \<noteq> ''normal''" "toLowerCase ''tampered'' \<noteq> ''normal''"
    by (simp_all add: toLowerCase_def lower_char_def)
  note pure = route_policy [of "Fin 1" "''NORMAL''" sample_env 0 sample_a "sample_state []" "sample_state []"]
    route_policy [of "Fin 1" "''normal''" sample_env 0 sample_a "sample_state []" "sample_state []"]
    route_policy [of "Fin 1" "''theft''" sample_env 0 sample_a "sample_state []" "sample_state []"]
    route_policy [of "Fin 0.999999" "''normal''" sample_env 0 sample_a "sample_state []" "sample_state []"]
  have r: "route (Fin 1) ''NORMAL'' = Normal" "route (Fin 1) ''normal'' = Normal"
    "route (Fin 1) ''theft'' = Theft" "route (Fin 0.999999) ''normal'' = Unidentified"
    using pure ge lt up lo th by blast+

  let ?sa = "start (sample_state [sample_a])"
  define ra where "ra = classify_image sample_env 0 sample_a ?sa"
  have "is_Done ra" unfolding ra_def by code_simp
  then have da: "classify_image sample_env 0 sample_a ?sa = Done (state_of_completion ra)"
    unfolding ra_def by simp
  have ca: "classify sample_env (classNames ?sa) sample_a = Some (''normal'', Fin 1)" by code_simp
  have na: "normalImages ?sa = []" by simp
  from route_policy [of "Fin 1" "''normal''" sample_env 0 sample_a ?sa "state_of_completion ra"] da
  obtain label conf where "classify sample_env (classNames ?sa) sample_a = Some (label, conf)"
    and "js_ge conf (Fin 1) \<and> toLowerCase label = ''normal'' \<longrightarrow>
      normalImages (state_of_completion ra) = normalImages ?sa @ [sample_a]"
    by blast
  with ca ge lo na have a: "normalImages (state_of_completion ra) = [sample_a]" by auto

  let ?sb = "start (sample_state [sample_b])"
  define rb where "rb = classify_image sample_env 0 sample_b ?sb"
  have "is_Done rb" unfolding rb_def by code_simp
  then have db: "classify_image sample_env 0 sample_b ?sb = Done (state_of_completion rb)"
    unfolding rb_def by simp
  have cb: "classify sample_env (classNames ?sb) sample_b = Some (''tampered'', Fin 1)" by code_simp
  have nb: "theftImages ?sb = []" by simp
  from route_policy [of "Fin 1" "''normal''" sample_env 0 sample_b ?sb "state_of_completion rb"] db
  obtain label conf where "classify sample_env (classNames ?sb) sample_b = Some (label, conf)"
    and "js_ge conf (Fin 1) \<and> toLowerCase label \<noteq> ''normal'' \<longrightarrow>
      theftImages (state_of_completion rb) = theftImages ?sb @ [sample_b]"
    by blast
  with cb ge th nb have b: "theftImages (state_of_completion rb) = [sample_b]" by auto

  let ?sc = "start (sample_state [sample_c])"
  define rc where "rc = classify_image sample_env 0 sample_c ?sc"
  have "is_Done rc" unfolding rc_def by code_simp
  then have dc: "classify_image sample_env 0 sample_c ?sc = Done (state_of_completion rc)"
    unfolding rc_def by simp
  have cc: "classify sample_env (classNames ?sc) sample_c = Some (''normal'', Fin 0.8)" by code_simp
  have nc: "unidentifiedImages ?sc = []" by simp
  from route_policy [of "Fin 1" "''normal''" sample_env 0 sample_c ?sc "state_of_completion rc"] dc
  obtain label conf where "classify sample_env (classNames ?sc) sample_c = Some (label, conf)"
    and "js_lt conf (Fin 1) \<longrightarrow>
      unidentifiedImages (state_of_completion rc) = unidentifiedImages ?sc @ [sample_c]"
    by blast
  with cc lt nc have c: "unidentifiedImages (state_of_completion rc) = [sample_c]" by auto

  let ?s = "sample_state [sample_a, sample_b, sample_c]"
  define R where "R = processBatchImages sample_env ?s"
  have "is_Completed R" unfolding R_def by code_simp
  then have run: "processBatchImages sample_env ?s = Completed (state_of R)"
    unfolding R_def by simp
  have f: "filter (\<lambda>x. routed sample_env (classNames ?s) x = Some Normal) (batchImages ?s) = [sample_a]"
    "filter (\<lambda>x. routed sample_env (classNames ?s) x = Some Theft) (batchImages ?s) = [sample_b]"
    "filter (\<lambda>x. routed sample_env (classNames ?s) x = Some Unidentified) (batchImages ?s) = [sample_c]"
    by code_simp+
  from route_policy [of "Fin 1" "''normal''" sample_env 0 sample_a ?s "state_of R"] run
  have "normalImages (state_of R) =
        filter (\<lambda>x. routed sample_env (classNames ?s) x = Some Normal) (batchImages ?s)"
    and "theftImages (state_of R) =
        filter (\<lambda>x. routed sample_env (classNames ?s) x = Some Theft) (batchImages ?s)"
    and "unidentifiedImages (state_of R) =
        filter (\<lambda>x. routed sample_env (classNames ?s) x = Some Unidentified) (batchImages ?s)"
    by blast+
  then have d: "normalImages (state_of R) = [sample_a]" "theftImages (state_of R) = [sample_b]"
    "unidentifiedImages (state_of R) = [sample_c]"
    by (simp_all only: f)
  show ?thesis
    using r a b c d unfolding ra_def rb_def rc_def R_def by (intro conjI)
qed

section \<open>The classifier\<close>

text \<open>
  C3 (as amended). For every output vector that is not empty and holds neither NaN nor
  a hole, the scan selects the least index whose value is at least every value of the
  vector, and the confidence is the value at that index; on \<open>[0.5, 0.5]\<close> it selects
  index 0.
\<close>

theorem argmax_first_maximum:
  assumes "probabilities \<noteq> []" "list_all comparable probabilities"
  shows "first_maximum probabilities (fst (argmax probabilities)) \<and>
         snd (argmax probabilities) = probabilities ! fst (argmax probabilities)"
proof -
  obtain i m where im: "argmax probabilities = (i, m)" by (cases "argmax probabilities")
  have all: "i < length probabilities \<and> m = probabilities ! i \<and>
      (\<forall>k<length probabilities. js_ge m (probabilities ! k)) \<and>
      (\<forall>k<i. js_gt m (probabilities ! k))"
    using argmax_props [OF assms] im by auto
  then have i: "i < length probabilities" and m: "m = probabilities ! i"
    and ge: "\<forall>k<length probabilities. js_ge m (probabilities ! k)"
    and gt: "\<forall>k<i. js_gt m (probabilities ! k)" by blast+
  have "attains_max probabilities i"
    using i m ge by (auto simp: attains_max_def js_index_def list_all_length)
  moreover have "\<not> attains_max probabilities k" if "k < i" for k
  proof
    assume "attains_max probabilities k"
    then have "js_ge (probabilities ! k) (probabilities ! i)"
      using i by (auto simp: attains_max_def js_index_def list_all_length)
    moreover from gt that m have "js_gt (probabilities ! i) (probabilities ! k)" by simp
    ultimately show False using js_gt_not_ge by blast
  qed
  ultimately show ?thesis using im m
    by (simp add: first_maximum_def list_all_iff)
qed

theorem argmax_first_maximum_witness:
  "fst (argmax [Fin 0.5, Fin 0.5]) = 0 \<and> first_maximum [Fin 0.5, Fin 0.5] 0 \<and>
   fst (argmax [Fin 0.2, Fin 0.7, Fin 0.7]) = 1 \<and> first_maximum [Fin 0.2, Fin 0.7, Fin 0.7] 1"
proof -
  have a: "fst (argmax [Fin 0.5, Fin 0.5]) = 0" by (simp add: argmax_def js_index_def)
  have b: "fst (argmax [Fin 0.2, Fin 0.7, Fin 0.7]) = 1" by (simp add: argmax_def js_index_def)
  have c: "list_all comparable [Fin 0.5, Fin 0.5]" "list_all comparable [Fin 0.2, Fin 0.7, Fin 0.7]"
    by simp_all
  show ?thesis
    using argmax_first_maximum [of "[Fin 0.5, Fin 0.5]"]
      argmax_first_maximum [of "[Fin 0.2, Fin 0.7, Fin 0.7]"] a b c
    by simp
qed

text \<open>
  The scan on a vector that starts with NaN stays at index 0, whose value is not at least
  the later 0.9; on the empty vector it answers index 0, which is no index of the vector.
\<close>

theorem argmax_nan_counterexample:
  "fst (argmax [NaN, Fin 0.9]) = 0 \<and> \<not> first_maximum [NaN, Fin 0.9] (fst (argmax [NaN, Fin 0.9])) \<and>
   fst (argmax []) = 0 \<and> \<not> first_maximum [] (fst (argmax []))"
  by (simp add: argmax_def js_index_def first_maximum_def attains_max_def)

section \<open>The batch as a whole\<close>

text \<open>
  C2 (as amended). For every batch run that completes successfully, the input list is not
  empty, the results hold exactly one item per input, as many as there are inputs and in
  the order of the inputs, each with the file, label and confidence of its input, and they
  are appended to the classified images of the session. The progress values published are
  (0, n), then (1, n) up to (n, n) during the loop, so the last value the loop sets has
  current = total = n, and then (0, 0) from the cleanup: the state the run leaves has
  progress (0, 0).
\<close>

theorem batch_results_in_input_order:
  assumes "processBatchImages env s = Completed s'"
  shows "batchImages s \<noteq> [] \<and>
    length (processedImages s') = length (batchImages s) \<and>
    list_all2 (corresponds env (classNames s)) (batchImages s) (processedImages s') \<and>
    classifiedImages s' = classifiedImages s @ processedImages s' \<and>
    progress_updates (trace s') =
      (0, length (batchImages s)) #
      map (\<lambda>k. (k + 1, length (batchImages s))) [0..<length (batchImages s)] @ [(0, 0)] \<and>
    batchProgress s' = (0, 0)"
proof -
  from assms obtain s2 s3 where ne: "batchImages s \<noteq> []"
    and l: "batch_loop env 0 (batchImages s) (start s) = Done s2"
    and a: "archive_and_record env s2 = Done s3" and s': "s' = cleanup s3"
    by (rule processBatchImages_Completed)
  from batch_loop_results [OF l] obtain ps where ps: "processedImages s2 = ps"
    and all: "list_all2 (corresponds env (classNames s)) (batchImages s) ps"
    by auto
  from batch_loop_frame [OF l] have fr: "classifiedImages s2 = classifiedImages s" by simp
  from batch_loop_progress_updates [OF l]
  have pu: "progress_updates (trace s2) =
      (0, length (batchImages s)) #
      map (\<lambda>k. (k + 1, length (batchImages s))) [0..<length (batchImages s)]"
    by simp
  from archive_and_record_Done [OF a]
  have p3: "processedImages s3 = processedImages s2"
    and c3: "classifiedImages s3 = classifiedImages s2 @ processedImages s2"
    and t3: "progress_updates (trace s3) = progress_updates (trace s2)"
    by (simp_all add: progress_updates_append)
  have len: "length ps = length (batchImages s)" using all by (simp add: list_all2_lengthD)
  show ?thesis
    using ne all len by (simp add: s' p3 c3 t3 ps fr pu progress_updates_append)
qed

theorem batch_results_in_input_order_witness:
  "map file' (processedImages (state_of (processBatchImages sample_env
      (sample_state [sample_a, sample_b, sample_c])))) = [sample_a, sample_b, sample_c] \<and>
   progress_updates (trace (state_of (processBatchImages sample_env
      (sample_state [sample_a, sample_b, sample_c])))) = [(0, 3), (1, 3), (2, 3), (3, 3), (0, 0)]"
proof -
  let ?s = "sample_state [sample_a, sample_b, sample_c]"
  let ?r = "processBatchImages sample_env ?s"
  have "is_Completed ?r" by code_simp
  then have run: "?r = Completed (state_of ?r)" by simp
  have b: "batchImages ?s = [sample_a, sample_b, sample_c]" by (simp add: sample_state_def)
  have u: "[0..<3] = [0, 1, 2::nat]" by (simp add: upt_rec)
  from batch_results_in_input_order [OF run]
  have "list_all2 (corresponds sample_env (classNames ?s)) (batchImages ?s)
          (processedImages (state_of ?r))"
    and "progress_updates (trace (state_of ?r)) =
      (0, length (batchImages ?s)) #
      map (\<lambda>k. (k + 1, length (batchImages ?s))) [0..<length (batchImages ?s)] @ [(0, 0)]"
    by blast+
  then show ?thesis
    by (auto simp: b u corresponds_def list_all2_Cons1)
qed

text \<open>
  A run over one image completes and leaves the progress at (0, 0), not at (1, 1).
\<close>

theorem batch_progress_reset_counterexample:
  "is_Completed (processBatchImages sample_env (sample_state [sample_a])) \<and>
   length (batchImages (sample_state [sample_a])) = 1 \<and>
   batchProgress (state_of (processBatchImages sample_env (sample_state [sample_a]))) = (0, 0)"
  by code_simp

text \<open>
  C4 (as amended). Whatever way the loop of a batch run ends, it has fully processed the
  first \<open>k\<close> images, one after the other, and for each of them, at index \<open>j\<close>, the steps
  were, in this order: the progress is set to \<open>(j + 1, n)\<close>, the image is preprocessed,
  the model is run, the image is pushed to the category of its label and confidence, its
  result is appended, and the callback \<^verbatim>\<open>onImageClassified\<close> is called with the image and
  its label. The progress is set before the image is preprocessed, so its first component
  counts the images started: when the loop stops at an image that throws or never loads,
  the progress is \<open>(k + 1, n)\<close> with \<open>k\<close> results.
\<close>

theorem item_steps_in_order:
  "\<exists>k. k \<le> length (batchImages s) \<and>
    list_all (\<lambda>x. classify env (classNames s) x \<noteq> None) (take k (batchImages s)) \<and>
    trace (state_of_completion (batch_loop env 0 (batchImages s) (start s))) =
      SetBatchProgress 0 (length (batchImages s)) #
      concat (map (\<lambda>(j, x). item_events env (classNames s) (length (batchImages s)) j x)
        (enumerate 0 (take k (batchImages s)))) @
      stop_events (batch_loop env 0 (batchImages s) (start s)) k (length (batchImages s))
        (drop k (batchImages s)) \<and>
    length (processedImages (state_of_completion (batch_loop env 0 (batchImages s) (start s)))) = k \<and>
    (case batch_loop env 0 (batchImages s) (start s) of
       Done _ \<Rightarrow> k = length (batchImages s)
     | _ \<Rightarrow> k < length (batchImages s) \<and>
         batchProgress (state_of_completion (batch_loop env 0 (batchImages s) (start s))) =
           (k + 1, length (batchImages s)))"
proof -
  have c: "clock_reads (start s) = 0" by simp
  from batch_loop_shape [OF c, of "batchImages s" env] obtain k
    where "k \<le> length (batchImages s)"
      and "list_all (\<lambda>x. classify env (classNames (start s)) x \<noteq> None) (take k (batchImages s))"
      and "trace (state_of_completion (batch_loop env 0 (batchImages s) (start s))) =
        trace (start s) @
        concat (map (\<lambda>(j, x). item_events env (classNames (start s))
            (length (batchImages (start s))) j x)
          (enumerate 0 (take k (batchImages s)))) @
        stop_events (batch_loop env 0 (batchImages s) (start s)) (0 + k)
          (length (batchImages (start s))) (drop k (batchImages s))"
      and "length (processedImages (state_of_completion (batch_loop env 0 (batchImages s) (start s)))) =
        length (processedImages (start s)) + k"
      and "(case batch_loop env 0 (batchImages s) (start s) of
         Done _ \<Rightarrow> k = length (batchImages s)
       | _ \<Rightarrow> k < length (batchImages s) \<and>
           batchProgress (state_of_completion (batch_loop env 0 (batchImages s) (start s))) =
             (0 + k + 1, length (batchImages (start s))))"
    by blast
  then show ?thesis
    by (intro exI [of _ k]) (simp split: completion.splits)
qed

theorem item_steps_in_order_witness:
  "trace (state_of_completion (batch_loop sample_env 0 [sample_a, sample_b]
      (start (sample_state [sample_a, sample_b])))) =
   [SetBatchProgress 0 2,
    SetBatchProgress 1 2, PreprocessImage sample_a, Predict sample_a,
    PushCategory Normal sample_a,
    PushProcessed \<lparr>file' = sample_a, classification = ''normal'', timestamp = 5,
      confidence = Fin 1\<rparr>,
    OnImageClassified sample_a ''normal'',
    SetBatchProgress 2 2, PreprocessImage sample_b, Predict sample_b,
    PushCategory Theft sample_b,
    PushProcessed \<lparr>file' = sample_b, classification = ''tampered'', timestamp = 5,
      confidence = Fin 1\<rparr>,
    OnImageClassified sample_b ''tampered'']"
proof -
  let ?s = "sample_state [sample_a, sample_b]"
  define r where "r = batch_loop sample_env 0 [sample_a, sample_b] (start ?s)"
  have b: "batchImages ?s = [sample_a, sample_b]" "classNames ?s = [''normal'', ''tampered'']"
    by (simp_all add: sample_state_def)
  have d: "is_Done r" unfolding r_def by code_simp
  have ca: "classify sample_env [''normal'', ''tampered''] sample_a = Some (''normal'', Fin 1)"
    by code_simp
  have cb: "classify sample_env [''normal'', ''tampered''] sample_b = Some (''tampered'', Fin 1)"
    by code_simp
  have ra: "route (Fin 1) ''normal'' = Normal" by code_simp
  have rb: "route (Fin 1) ''tampered'' = Theft" by code_simp
  have dn: "date_now sample_env 0 = 5" "date_now sample_env (Suc 0) = 5"
    by (simp_all add: sample_env_def)
  from item_steps_in_order [of ?s sample_env, unfolded b, folded r_def] obtain k
    where t: "trace (state_of_completion r) =
      SetBatchProgress 0 (length [sample_a, sample_b]) #
      concat (map (\<lambda>(j, x). item_events sample_env [''normal'', ''tampered'']
          (length [sample_a, sample_b]) j x)
        (enumerate 0 (take k [sample_a, sample_b]))) @
      stop_events r k (length [sample_a, sample_b]) (drop k [sample_a, sample_b])"
    and e: "(case r of Done _ \<Rightarrow> k = length [sample_a, sample_b] | _ \<Rightarrow>
         k < length [sample_a, sample_b] \<and>
         batchProgress (state_of_completion r) = (k + 1, length [sample_a, sample_b]))"
    by blast
  from d e have "k = 2" by (cases r) simp_all
  with t d have "trace (state_of_completion r) =
   [SetBatchProgress 0 2,
    SetBatchProgress 1 2, PreprocessImage sample_a, Predict sample_a,
    PushCategory Normal sample_a,
    PushProcessed \<lparr>file' = sample_a, classification = ''normal'', timestamp = 5,
      confidence = Fin 1\<rparr>,
    OnImageClassified sample_a ''normal'',
    SetBatchProgress 2 2, PreprocessImage sample_b, Predict sample_b,
    PushCategory Theft sample_b,
    PushProcessed \<lparr>file' = sample_b, classification = ''tampered'', timestamp = 5,
      confidence = Fin 1\<rparr>,
    OnImageClassified sample_b ''tampered'']"
    by (cases r) (simp_all add: item_events_def ca cb ra rb dn)
  then show ?thesis unfolding r_def .
qed

text \<open>
  With a model that throws on the only image, the progress (1, 1) has been published and
  no result exists; and in a run that succeeds the progress is set before the image is
  preprocessed.
\<close>

theorem progress_before_classification_counterexample:
  "trace (state_of (processBatchImages (sample_env\<lparr>model_predict := (\<lambda>t. None)\<rparr>)
      (sample_state [sample_a]))) =
     [SetBatchProgress 0 1, SetBatchProgress 1 1, PreprocessImage sample_a, Predict sample_a,
      Alert AlertFailed, SetBatchProgress 0 0] \<and>
   processedImages (state_of (processBatchImages (sample_env\<lparr>model_predict := (\<lambda>t. None)\<rparr>)
      (sample_state [sample_a]))) = [] \<and>
   take 3 (trace (state_of (processBatchImages sample_env (sample_state [sample_a])))) =
     [SetBatchProgress 0 1, SetBatchProgress 1 1, PreprocessImage sample_a]"
  by code_simp

section \<open>Failures\<close>

text \<open>
  C5 (as amended). If the loop has classified every image and the archive step then fails,
  because the archive library cannot be imported or the archive cannot be generated, the
  run ends through its catch block: nothing is offered for download, the failure alert is
  shown, the classified images of the session are what they were before the run, so the
  results of this run, one per input, are not recorded in them, and the selected images
  stay selected. The cleanup has run: the processing flag is off and the progress is
  (0, 0), the model is still loaded, and a new run over the same images starts.
\<close>

theorem archive_failure_drops_results:
  assumes "model_ready s" and "batchImages s \<noteq> []"
    and "batch_loop env 0 (batchImages s) (start s) = Done s2"
    and "\<not> (import_jszip env \<and>
            generateAsync env (fst (build_zip env (s2\<lparr>clock_reads := clock_reads s2 + 1\<rparr>))))"
  shows "is_Failed (processBatchImages env s) \<and>
    classifiedImages (state_of (processBatchImages env s)) = classifiedImages s \<and>
    batchImages (state_of (processBatchImages env s)) = batchImages s \<and>
    downloads (trace (state_of (processBatchImages env s))) = [] \<and>
    length (processedImages s2) = length (batchImages s) \<and>
    trace (state_of (processBatchImages env s)) =
      trace s2 @ [Alert AlertFailed, SetBatchProgress 0 0] \<and>
    \<not> isBatchProcessing (state_of (processBatchImages env s)) \<and>
    batchProgress (state_of (processBatchImages env s)) = (0, 0) \<and>
    model_ready (state_of (processBatchImages env s)) \<and>
    \<not> is_NotStarted (processBatchImages env' (state_of (processBatchImages env s)))"
proof -
  from assms(4) archive_and_record_cases [of env s2]
  obtain s3 where a: "archive_and_record env s2 = Thrown s3" by auto
  from archive_and_record_Thrown [OF a]
  have c3: "classifiedImages s3 = classifiedImages s2" and b3: "batchImages s3 = batchImages s2"
    and t3: "trace s3 = trace s2" by simp_all
  from archive_and_record_Thrown_ready [OF a] have m3: "model_ready s3 = model_ready s2" .
  from batch_loop_frame [OF assms(3)]
  have c2: "classifiedImages s2 = classifiedImages s" and b2: "batchImages s2 = batchImages s"
    and m2: "model_ready s2 = model_ready s"
    by simp_all
  from batch_loop_trace [OF assms(3)]
  have d2: "downloads (trace s2) = []"
    by (simp add: downloads_append downloads_concat_item_events)
  from batch_loop_results [OF assms(3)]
  have len: "length (processedImages s2) = length (batchImages s)"
    by (auto dest: list_all2_lengthD)
  have r: "processBatchImages env s = Failed (cleanup (emit (Alert AlertFailed) s3))"
    using assms(1,2,3) a by (simp add: processBatchImages_def try_block_def)
  have again: "\<not> is_NotStarted (processBatchImages env' (cleanup (emit (Alert AlertFailed) s3)))"
    using assms(1,2) by (intro processBatchImages_starts) (simp_all add: m3 m2 b3 b2)
  show ?thesis
    using assms(1) again
    by (simp add: r c3 b3 t3 c2 b2 m3 m2 d2 len downloads_append)
qed

theorem archive_failure_drops_results_witness:
  "is_Failed (processBatchImages (sample_env\<lparr>generateAsync := (\<lambda>z. False)\<rparr>)
      (sample_state [sample_a, sample_b])) \<and>
   classifiedImages (state_of (processBatchImages (sample_env\<lparr>generateAsync := (\<lambda>z. False)\<rparr>)
      (sample_state [sample_a, sample_b]))) = [] \<and>
   batchImages (state_of (processBatchImages (sample_env\<lparr>generateAsync := (\<lambda>z. False)\<rparr>)
      (sample_state [sample_a, sample_b]))) = [sample_a, sample_b] \<and>
   \<not> isBatchProcessing (state_of (processBatchImages
      (sample_env\<lparr>generateAsync := (\<lambda>z. False)\<rparr>) (sample_state [sample_a, sample_b]))) \<and>
   batchProgress (state_of (processBatchImages
      (sample_env\<lparr>generateAsync := (\<lambda>z. False)\<rparr>) (sample_state [sample_a, sample_b]))) = (0, 0) \<and>
   \<not> is_NotStarted (processBatchImages sample_env (state_of (processBatchImages
      (sample_env\<lparr>generateAsync := (\<lambda>z. False)\<rparr>) (sample_state [sample_a, sample_b]))))"
proof -
  let ?env = "sample_env\<lparr>generateAsync := (\<lambda>z. False)\<rparr>"
  let ?s = "sample_state [sample_a, sample_b]"
  define r where "r = batch_loop ?env 0 (batchImages ?s) (start ?s)"
  have "is_Done r" unfolding r_def by code_simp
  then have l: "batch_loop ?env 0 (batchImages ?s) (start ?s) = Done (state_of_completion r)"
    unfolding r_def by simp
  have m: "model_ready ?s" and b: "batchImages ?s \<noteq> []" by (simp_all add: sample_state_def)
  have g: "\<not> (import_jszip ?env \<and> generateAsync ?env
     (fst (build_zip ?env ((state_of_completion r)\<lparr>clock_reads := clock_reads (state_of_completion r) + 1\<rparr>))))"
    by simp
  have c: "classifiedImages ?s = []" "batchImages ?s = [sample_a, sample_b]"
    by (simp_all add: sample_state_def)
  from archive_failure_drops_results [OF m b l g, of sample_env] show ?thesis
    by (simp only: c) blast
qed

text \<open>
  A run over one image whose archive cannot be generated has computed one result and
  leaves the classified images of the session empty.
\<close>

theorem archive_failure_counterexample:
  "is_Failed (processBatchImages (sample_env\<lparr>generateAsync := (\<lambda>z. False)\<rparr>)
      (sample_state [sample_a])) \<and>
   length (processedImages (state_of (processBatchImages
      (sample_env\<lparr>generateAsync := (\<lambda>z. False)\<rparr>) (sample_state [sample_a])))) = 1 \<and>
   classifiedImages (state_of (processBatchImages
      (sample_env\<lparr>generateAsync := (\<lambda>z. False)\<rparr>) (sample_state [sample_a]))) = []"
  by code_simp

text \<open>
  C9. The claim is that an image that cannot be decoded makes the run end with an error.
  The code does not: when an image never loads, after images that are classified, the
  run neither completes nor fails, it stays at that image for ever, with the processing
  flag set, the progress at the position of that image and the results of the images
  before it only.
\<close>

theorem undecodable_image_stalls:
  assumes "model_ready s" and "batchImages s = pre @ img # post"
    and "list_all (\<lambda>x. classify env (classNames s) x \<noteq> None) pre"
    and "image_load env img = None"
  shows "is_Stalled (processBatchImages env s) \<and>
    isBatchProcessing (state_of (processBatchImages env s)) \<and>
    batchProgress (state_of (processBatchImages env s)) = (length pre + 1, length (batchImages s)) \<and>
    length (processedImages (state_of (processBatchImages env s))) = length pre \<and>
    classifiedImages (state_of (processBatchImages env s)) = classifiedImages s"
proof -
  have "list_all (\<lambda>x. classify env (classNames (start s)) x \<noteq> None) pre"
    using assms(3) by simp
  from batch_loop_stalls [OF this assms(4), of 0 post] obtain s'
    where "batch_loop env 0 (pre @ img # post) (start s) = Hung s'"
      and "isBatchProcessing s'"
      and "batchProgress s' = (length pre + 1, length (batchImages s))"
      and "length (processedImages s') = length pre"
      and "classifiedImages s' = classifiedImages s"
    by auto
  then show ?thesis
    using assms(1,2) by (simp add: processBatchImages_def try_block_def)
qed

theorem undecodable_image_stalls_witness:
  "is_Stalled (processBatchImages
      (sample_env\<lparr>image_load := (\<lambda>f. if f = sample_b then None else Some (fbytes f))\<rparr>)
      (sample_state [sample_a, sample_b, sample_c])) \<and>
   batchProgress (state_of (processBatchImages
      (sample_env\<lparr>image_load := (\<lambda>f. if f = sample_b then None else Some (fbytes f))\<rparr>)
      (sample_state [sample_a, sample_b, sample_c]))) = (2, 3)"
proof -
  let ?env = "sample_env\<lparr>image_load := (\<lambda>f. if f = sample_b then None else Some (fbytes f))\<rparr>"
  let ?s = "sample_state [sample_a, sample_b, sample_c]"
  have m: "model_ready ?s" by (simp add: sample_state_def)
  have b: "batchImages ?s = [sample_a] @ sample_b # [sample_c]" by (simp add: sample_state_def)
  have c: "list_all (\<lambda>x. classify ?env (classNames ?s) x \<noteq> None) [sample_a]" by code_simp
  have l: "image_load ?env sample_b = None" by simp
  have n: "length (batchImages ?s) = 3" by (simp add: sample_state_def)
  from undecodable_image_stalls [OF m b c l] show ?thesis by (simp only: n) simp
qed

section \<open>The archive that is built\<close>

text \<open>
  C6. Whatever the clock says, and so also when all images are filed within one
  millisecond, the entries of the archive have pairwise distinct names, there is one
  file entry per image of the three groups, none replacing another, and two positions
  of one category never get the same file name at the same clock reading.
\<close>

theorem archive_names_distinct:
  "distinct (map fst (fst (build_zip env s))) \<and>
   length (filter is_file_entry (fst (build_zip env s))) =
     length (normalImages s) + length (theftImages s) + length (unidentifiedImages s) \<and>
   (i \<noteq> j \<longrightarrow> file_name cat t i \<noteq> file_name cat t j)"
  using file_name_inj [of cat t i t j]
  by (auto simp: build_zip_distinct build_zip_files)

theorem archive_names_distinct_witness:
  "file_name ''normal'' 5 0 \<noteq> file_name ''normal'' 5 1 \<and>
   map fst (fst (build_zip sample_env
     ((sample_state [])\<lparr>normalImages := [sample_a, sample_b]\<rparr>))) =
     [''normal/'', ''normal/normal_5_0.jpg'', ''normal/normal_5_1.jpg''] \<and>
   distinct (map fst (fst (build_zip sample_env
     ((sample_state [])\<lparr>normalImages := [sample_a, sample_b]\<rparr>))))"
proof -
  have "map fst (fst (build_zip sample_env
     ((sample_state [])\<lparr>normalImages := [sample_a, sample_b]\<rparr>))) =
     [''normal/'', ''normal/normal_5_0.jpg'', ''normal/normal_5_1.jpg'']"
    by code_simp
  moreover have "(0::nat) \<noteq> 1" by simp
  ultimately show ?thesis
    using archive_names_distinct [of sample_env
        "(sample_state [])\<lparr>normalImages := [sample_a, sample_b]\<rparr>" 0 1 "''normal''" 5]
    by blast
qed

text \<open>
  C7. For every batch run that completes successfully, with \<open>a\<close> inputs routed to normal,
  \<open>b\<close> to theft and \<open>c\<close> to unidentified, these add up to the number of inputs, one
  archive is offered for download, it holds \<open>a\<close> files below \<open>normal/\<close>, \<open>b\<close> below
  \<open>theft/\<close> and \<open>c\<close> below \<open>unidentified/\<close>, as many files as inputs in all, a folder
  exists exactly for the categories that received an image, and there is no other folder.
\<close>

theorem archive_counts:
  assumes "processBatchImages env s = Completed s'"
  shows "\<exists>z. downloads (trace s') = [z] \<and>
    length (files_in ''normal'' z) =
      length (filter (\<lambda>x. routed env (classNames s) x = Some Normal) (batchImages s)) \<and>
    length (files_in ''theft'' z) =
      length (filter (\<lambda>x. routed env (classNames s) x = Some Theft) (batchImages s)) \<and>
    length (files_in ''unidentified'' z) =
      length (filter (\<lambda>x. routed env (classNames s) x = Some Unidentified) (batchImages s)) \<and>
    length (filter (\<lambda>x. routed env (classNames s) x = Some Normal) (batchImages s)) +
    length (filter (\<lambda>x. routed env (classNames s) x = Some Theft) (batchImages s)) +
    length (filter (\<lambda>x. routed env (classNames s) x = Some Unidentified) (batchImages s)) =
      length (batchImages s) \<and>
    length (filter is_file_entry z) = length (batchImages s) \<and>
    has_folder ''normal'' z =
      (filter (\<lambda>x. routed env (classNames s) x = Some Normal) (batchImages s) \<noteq> []) \<and>
    has_folder ''theft'' z =
      (filter (\<lambda>x. routed env (classNames s) x = Some Theft) (batchImages s) \<noteq> []) \<and>
    has_folder ''unidentified'' z =
      (filter (\<lambda>x. routed env (classNames s) x = Some Unidentified) (batchImages s) \<noteq> []) \<and>
    set (filter (\<lambda>e. \<not> is_file_entry e) z) \<subseteq>
      {(''normal/'', Folder), (''theft/'', Folder), (''unidentified/'', Folder)}"
proof -
  from processBatchImages_archive [OF assms] obtain s2
    where d: "downloads (trace s') = [fst (build_zip env s2)]"
      and n: "normalImages s2 =
        filter (\<lambda>x. routed env (classNames s) x = Some Normal) (batchImages s)"
      and t: "theftImages s2 =
        filter (\<lambda>x. routed env (classNames s) x = Some Theft) (batchImages s)"
      and u: "unidentifiedImages s2 =
        filter (\<lambda>x. routed env (classNames s) x = Some Unidentified) (batchImages s)"
      and c: "list_all (\<lambda>x. classify env (classNames s) x \<noteq> None) (batchImages s)"
    by blast
  note p = routed_partition [OF c]
  have f: "length (filter is_file_entry (fst (build_zip env s2))) = length (batchImages s)"
    using p by (simp add: build_zip_files n t u)
  show ?thesis
    apply (rule exI [of _ "fst (build_zip env s2)"])
    apply (simp only: d f p build_zip_files_in build_zip_has_folder image_entries_length n t u)
    using build_zip_folders [of env s2]
    apply simp
    done
qed

theorem archive_counts_witness:
  "length (files_in ''normal'' (hd (downloads (trace (state_of (processBatchImages sample_env
      (sample_state [sample_a, sample_b, sample_c]))))))) = 1 \<and>
   length (files_in ''theft'' (hd (downloads (trace (state_of (processBatchImages sample_env
      (sample_state [sample_a, sample_b, sample_c]))))))) = 1 \<and>
   length (files_in ''unidentified'' (hd (downloads (trace (state_of (processBatchImages sample_env
      (sample_state [sample_a, sample_b, sample_c]))))))) = 1 \<and>
   \<not> has_folder ''theft'' (hd (downloads (trace (state_of (processBatchImages sample_env
      (sample_state [sample_a, sample_c]))))))"
proof -
  let ?s = "sample_state [sample_a, sample_b, sample_c]"
  let ?r = "processBatchImages sample_env ?s"
  let ?s' = "sample_state [sample_a, sample_c]"
  let ?r' = "processBatchImages sample_env ?s'"
  have "is_Completed ?r" by code_simp
  then have run: "?r = Completed (state_of ?r)" by simp
  have "is_Completed ?r'" by code_simp
  then have run': "?r' = Completed (state_of ?r')" by simp
  have n: "length (filter (\<lambda>x. routed sample_env (classNames ?s) x = Some Normal) (batchImages ?s)) = 1"
    by code_simp
  have t: "length (filter (\<lambda>x. routed sample_env (classNames ?s) x = Some Theft) (batchImages ?s)) = 1"
    by code_simp
  have u: "length (filter (\<lambda>x. routed sample_env (classNames ?s) x = Some Unidentified)
      (batchImages ?s)) = 1"
    by code_simp
  have t': "filter (\<lambda>x. routed sample_env (classNames ?s') x = Some Theft) (batchImages ?s') = []"
    by code_simp
  from archive_counts [OF run] obtain z where z: "downloads (trace (state_of ?r)) = [z]"
    and "length (files_in ''normal'' z) =
      length (filter (\<lambda>x. routed sample_env (classNames ?s) x = Some Normal) (batchImages ?s))"
    and "length (files_in ''theft'' z) =
      length (filter (\<lambda>x. routed sample_env (classNames ?s) x = Some Theft) (batchImages ?s))"
    and "length (files_in ''unidentified'' z) =
      length (filter (\<lambda>x. routed sample_env (classNames ?s) x = Some Unidentified) (batchImages ?s))"
    by blast
  then have a: "length (files_in ''normal'' z) = 1" "length (files_in ''theft'' z) = 1"
    "length (files_in ''unidentified'' z) = 1"
    by (simp_all only: n t u)
  from archive_counts [OF run'] obtain z' where z': "downloads (trace (state_of ?r')) = [z']"
    and "has_folder ''theft'' z' =
      (filter (\<lambda>x. routed sample_env (classNames ?s') x = Some Theft) (batchImages ?s') \<noteq> [])"
    by blast
  then have b: "\<not> has_folder ''theft'' z'" by (simp add: t')
  show ?thesis
    by (simp add: z z' a b)
qed

text \<open>
  C10. Every file entry written into the archive has a name that ends in \<open>.jpg\<close>,
  whatever the name and the content type of the image, and its data is the image as it was
  selected, bytes included; the files of the archive of a successful run are the inputs.
\<close>

theorem archived_files_jpg_named_originals:
  "list_all (\<lambda>e. suffix ''.jpg'' (fst e)) (filter is_file_entry (fst (build_zip env s))) \<and>
   map snd (filter is_file_entry (fst (build_zip env s))) =
     map FileData (normalImages s @ theftImages s @ unidentifiedImages s) \<and>
   (processBatchImages env s = Completed s' \<longrightarrow>
     (\<exists>z. downloads (trace s') = [z] \<and>
        list_all (\<lambda>e. suffix ''.jpg'' (fst e)) (filter is_file_entry z) \<and>
        set (map snd (filter is_file_entry z)) = FileData ` set (batchImages s)))"
proof (intro conjI impI)
  show "list_all (\<lambda>e. suffix ''.jpg'' (fst e)) (filter is_file_entry (fst (build_zip env s)))"
    by (rule build_zip_suffix)
  show "map snd (filter is_file_entry (fst (build_zip env s))) =
     map FileData (normalImages s @ theftImages s @ unidentifiedImages s)"
    by (rule build_zip_data)
next
  assume "processBatchImages env s = Completed s'"
  from processBatchImages_archive [OF this] obtain s2
    where d: "downloads (trace s') = [fst (build_zip env s2)]"
      and n: "normalImages s2 =
        filter (\<lambda>x. routed env (classNames s) x = Some Normal) (batchImages s)"
      and t: "theftImages s2 =
        filter (\<lambda>x. routed env (classNames s) x = Some Theft) (batchImages s)"
      and u: "unidentifiedImages s2 =
        filter (\<lambda>x. routed env (classNames s) x = Some Unidentified) (batchImages s)"
      and c: "list_all (\<lambda>x. classify env (classNames s) x \<noteq> None) (batchImages s)"
    by blast
  have "set (normalImages s2 @ theftImages s2 @ unidentifiedImages s2) = set (batchImages s)"
    using routed_cover [OF c] by (simp only: n t u set_append Un_assoc)
  then have "set (map snd (filter is_file_entry (fst (build_zip env s2)))) =
      FileData ` set (batchImages s)"
    by (simp only: build_zip_data set_map)
  with d build_zip_suffix [of env s2]
  show "\<exists>z. downloads (trace s') = [z] \<and>
        list_all (\<lambda>e. suffix ''.jpg'' (fst e)) (filter is_file_entry z) \<and>
        set (map snd (filter is_file_entry z)) = FileData ` set (batchImages s)"
    by blast
qed

theorem archived_files_jpg_named_originals_witness:
  "downloads (trace (state_of (processBatchImages sample_env (sample_state [sample_a])))) =
     [[(''normal/'', Folder), (''normal/normal_5_0.jpg'', FileData sample_a)]] \<and>
   fname sample_a = ''a.png'' \<and> ftype sample_a = ''image/png'' \<and>
   set (map snd (filter is_file_entry (hd (downloads (trace (state_of
     (processBatchImages sample_env (sample_state [sample_a]))))))))
     = {FileData sample_a} \<and>
   list_all (\<lambda>e. suffix ''.jpg'' (fst e)) (filter is_file_entry (hd (downloads (trace (state_of
     (processBatchImages sample_env (sample_state [sample_a])))))))"
proof -
  let ?s = "sample_state [sample_a]"
  let ?r = "processBatchImages sample_env ?s"
  have "is_Completed ?r" by code_simp
  then have run: "?r = Completed (state_of ?r)" by simp
  have b: "batchImages ?s = [sample_a]" by (simp add: sample_state_def)
  have e: "downloads (trace (state_of ?r)) =
     [[(''normal/'', Folder), (''normal/normal_5_0.jpg'', FileData sample_a)]]"
    by code_simp
  have f: "fname sample_a = ''a.png''" "ftype sample_a = ''image/png''"
    by (simp_all add: sample_a_def)
  from archived_files_jpg_named_originals [of sample_env ?s "state_of ?r"] run
  obtain z where z: "downloads (trace (state_of ?r)) = [z]"
    and j: "list_all (\<lambda>e. suffix ''.jpg'' (fst e)) (filter is_file_entry z)"
    and d: "set (map snd (filter is_file_entry z)) = FileData ` set (batchImages ?s)"
    by blast
  have h: "hd (downloads (trace (state_of ?r))) = z" by (simp only: z list.sel)
  from d have d': "set (map snd (filter is_file_entry z)) = {FileData sample_a}"
    by (simp only: b) simp
  have p1: "set (map snd (filter is_file_entry (hd (downloads (trace (state_of ?r)))))) =
      {FileData sample_a}"
    unfolding h by (rule d')
  have p2: "list_all (\<lambda>e. suffix ''.jpg'' (fst e))
      (filter is_file_entry (hd (downloads (trace (state_of ?r)))))"
    unfolding h by (rule j)
  show ?thesis
    by (intro conjI) (rule e f p1 p2)+
qed

section \<open>The label\<close>

text \<open>
  C8 (as amended). The label is \<open>labels[index]\<close> when the index is within the label
  list and the label there is not the empty string, and it is the placeholder
  \<open>Class <index>\<close> when the index is outside the list and also when the label there is
  empty; it is never empty. The index is the one the scan over the model's output selects.
\<close>

theorem label_of_index:
  "(i < length labels \<and> labels ! i \<noteq> [] \<longrightarrow> label_of labels i = labels ! i) \<and>
   (length labels \<le> i \<longrightarrow> label_of labels i = ''Class '' @ string_of_nat i) \<and>
   (i < length labels \<and> labels ! i = [] \<longrightarrow> label_of labels i = ''Class '' @ string_of_nat i) \<and>
   label_of labels i \<noteq> [] \<and>
   (image_load env img = Some t \<and> model_predict env t = Some p \<longrightarrow>
      classify env labels img = Some (label_of labels (fst (argmax p)), snd (argmax p)))"
  by (auto simp: label_of_def classify_def)

theorem label_of_index_witness:
  "label_of [''theft'', ''Normal''] 1 = ''Normal'' \<and>
   label_of [''theft'', ''Normal''] 2 = ''Class 2'' \<and>
   label_of ['''', ''Normal''] 0 = ''Class 0'' \<and>
   classify sample_env [''theft''] sample_b = Some (''Class 1'', Fin 1)"
proof -
  have a: "string_of_nat 2 = ''2''" "string_of_nat 0 = ''0''" "string_of_nat (Suc 0) = ''1''"
    by code_simp+
  have b: "image_load sample_env sample_b = Some [3]" by code_simp
  have c: "model_predict sample_env [3] = Some [Fin 0, Fin 1]" by code_simp
  have d: "argmax [Fin 0, Fin 1] = (1, Fin 1)" by (simp add: argmax_def js_index_def)
  from label_of_index [of 1 "[''theft'', ''Normal'']" sample_env sample_b "[3]" "[Fin 0, Fin 1]"]
    label_of_index [of 2 "[''theft'', ''Normal'']" sample_env sample_b "[3]" "[Fin 0, Fin 1]"]
    label_of_index [of 0 "['''', ''Normal'']" sample_env sample_b "[3]" "[Fin 0, Fin 1]"]
    label_of_index [of 1 "[''theft'']" sample_env sample_b "[3]" "[Fin 0, Fin 1]"]
  show ?thesis by (simp add: a b c d)
qed

text \<open>
  With an empty string as first label, index 0 is within the list and the label is the
  placeholder, not the empty string that the list holds there.
\<close>

theorem empty_label_counterexample:
  "0 < length ['''', ''Normal''] \<and>
   label_of ['''', ''Normal''] 0 \<noteq> ['''', ''Normal''] ! 0 \<and>
   label_of ['''', ''Normal''] 0 = ''Class 0''"
  by code_simp

end
